theory Spec2Isabelle
  imports Complex_Main "HOL-Library.Multiset" "HOL-Library.Sublist"
begin

section \<open>Errors and tabular data\<close>

text \<open>
  The Python exceptions the feature code can raise. A raise is the value \<open>Inl e\<close> of a
  result of type \<open>error + 'a\<close>.
\<close>

datatype error = IndexError | ZeroDivisionError | ValueError

subsection \<open>Machine numbers\<close>

text \<open>
  The columns \<open>time\<close> and \<open>size\<close> are numpy \<open>int64\<close>: sums and differences of their
  cells wrap around in 64 bits, two's complement. \<open>int64 x\<close> is the value a result \<open>x\<close>
  wraps to.
\<close>

definition int64 :: "int \<Rightarrow> int" where
  "int64 x = (x + 2 ^ 63) mod 2 ^ 64 - 2 ^ 63"

text \<open>
  A binary64 number (numpy \<open>float64\<close>, Python \<open>float\<close>) has 53 significant bits.
  \<open>float64 x\<close> is the binary64 number nearest to the real \<open>x\<close>, the one with an even last
  bit when two are equally near: \<open>ulp64 x\<close> is the distance between neighbouring binary64
  numbers of the magnitude of \<open>x\<close>, and \<open>rne\<close> rounds to the nearest integer, a tie to the
  even one. The exponent is not bounded here; every quotient of two 64-bit integers lies
  within the range of binary64, where there is neither overflow nor a subnormal number.
\<close>

definition rne :: "real \<Rightarrow> int" where
  "rne x =
     (let f = \<lfloor>x\<rfloor>
      in if x - real_of_int f < 1 / 2 then f
         else if 1 / 2 < x - real_of_int f then f + 1
         else if even f then f else f + 1)"

definition ulp64 :: "real \<Rightarrow> real" where
  "ulp64 x = 2 powr (real_of_int \<lfloor>log 2 \<bar>x\<bar>\<rfloor> - 52)"

definition float64 :: "real \<Rightarrow> real" where
  "float64 x = (if x = 0 then 0 else real_of_int (rne (x / ulp64 x)) * ulp64 x)"

text \<open>
  The true division \<open>a / b\<close> of two \<open>int64\<close> values in numpy: both are converted to
  \<open>float64\<close> and the quotient is rounded. It is only used with a divisor that is not zero.
\<close>

definition float64_div :: "int \<Rightarrow> int \<Rightarrow> real" where
  "float64_div a b = float64 (float64 (real_of_int a) / float64 (real_of_int b))"

text \<open>
  One line of a preprocessed flow file: the index \<open>dt_time\<close> (elapsed milliseconds since
  the first packet of the flow, a timedelta), and the columns \<open>time\<close> (milliseconds),
  \<open>size\<close> (bytes) and \<open>dir\<close> (1 sent, 2 received). The field \<open>size\<close> is named
  \<open>size_bytes\<close> here, since \<open>size\<close> is a constant of HOL. A cell of \<open>size\<close> or \<open>dir\<close>
  may be missing (NaN), which is \<open>None\<close>. The column \<open>time\<close> is the key of the binning:
  it is read as integers. The integers of a line are 64-bit values.
\<close>

record row =
  dt_time :: int
  time :: int
  size_bytes :: "int option"
  dir :: "int option"

text \<open>A line with no missing cell, as every line is after \<open>dropna(how='any')\<close>.\<close>

record packet =
  p_dt_time :: int
  p_time :: int
  p_size :: int
  p_dir :: int

section \<open>feature_creation.py\<close>

subsection \<open>longest_dir_streak\<close>

text \<open>
  The loop of \<open>longest_dir_streak\<close> over \<open>vals\<close>, with its two variables \<open>longest\<close> and
  \<open>current\<close> as the state.
\<close>

fun streak_loop :: "int \<Rightarrow> int list \<Rightarrow> nat \<times> nat \<Rightarrow> nat \<times> nat" where
  "streak_loop d [] (longest, current) = (longest, current)"
| "streak_loop d (num # vals) (longest, current) =
     (if num = d then streak_loop d vals (longest, current + 1)
      else streak_loop d vals (max longest current, 0))"

definition longest_dir_streak :: "int list \<Rightarrow> int \<Rightarrow> nat" where
  "longest_dir_streak vals d =
     (case streak_loop d vals (0, 0) of (longest, current) \<Rightarrow> max longest current)"

subsection \<open>split\<close>

text \<open>
  \<open>np.arange(start, stop, step)\<close> with \<open>start\<close> and \<open>stop\<close> numpy \<open>int64\<close> scalars and
  \<open>step\<close> a Python \<open>int\<close>, as \<open>split\<close> calls it. Its length is the ceiling of
  \<open>(stop - start) / step\<close>, where the difference wraps in 64 bits and the division is the
  true division in \<open>float64\<close>; there are no values when that is not positive. The values
  are \<open>start + k * step\<close>, wrapping in 64 bits. A zero step makes the quotient infinite
  and raises ValueError. The memory the array takes is not modelled.
\<close>

definition np_arange :: "int \<Rightarrow> int \<Rightarrow> int \<Rightarrow> error + int list" where
  "np_arange start stop step =
     (if step = 0 then Inl ValueError
      else Inr (map (\<lambda>k. int64 (start + int k * step))
                  [0..<nat \<lceil>float64_div (int64 (stop - start)) step\<rceil>]))"

text \<open>
  \<open>pd.cut(df['time'], bins)\<close> with its defaults \<open>right=True\<close>, \<open>include_lowest=False\<close>:
  the categories are the intervals \<open>(bins[k], bins[k+1]]\<close>, open on the left and closed
  on the right, and a value in none of them gets no category. Bin edges that decrease
  raise ValueError (at the check of the edges, or when the intervals are built from
  them), and so do edges that repeat, unless there are exactly two; fewer than two edges
  give no category at all.
\<close>

definition pd_cut :: "int list \<Rightarrow> error + (int \<times> int) list" where
  "pd_cut bins =
     (if \<not> sorted bins then Inl ValueError
      else if \<not> distinct bins \<and> length bins \<noteq> 2 then Inl ValueError
      else Inr (zip bins (tl bins)))"

definition in_bin :: "int \<times> int \<Rightarrow> int \<Rightarrow> bool" where
  "in_bin b t = (fst b < t \<and> t \<le> snd b)"

text \<open>
  Iterating \<open>df.groupby('binned')\<close> on the categorical column: one group per category, in
  the order of the categories, also for a category that no line falls into (the default
  \<open>observed=False\<close>); lines keep their order within a group, and a line with no category
  is in no group.
\<close>

definition groupby_binned :: "(int \<times> int) list \<Rightarrow> row list \<Rightarrow> row list list" where
  "groupby_binned cats df = map (\<lambda>b. filter (\<lambda>r. in_bin b (time r)) df) cats"

text \<open>
  \<open>split(filename, chunk_size)\<close>. The file is given as its name and the lines
  \<open>pd.read_csv\<close> reads from it. \<open>values[0]\<close> on a file without lines raises IndexError.
  \<open>values[0] - 1\<close> and \<open>values[-1] + chunk_size\<close> are \<open>int64\<close> and wrap.
\<close>

definition split :: "string \<times> row list \<Rightarrow> int \<Rightarrow> error + (int \<times> row list) list" where
  "split file chunk_size =
     (let filename = fst file;
          df = snd file;
          streaming = (if sublist ''novideo'' filename then 0 else 1)
      in if df = [] then Inl IndexError
         else
           (let start = int64 (time (hd df) - 1);
                stop = int64 (time (last df) + chunk_size)
            in case np_arange start stop chunk_size of
                 Inl e \<Rightarrow> Inl e
               | Inr bins \<Rightarrow>
                   (case pd_cut bins of
                      Inl e \<Rightarrow> Inl e
                    | Inr cats \<Rightarrow>
                        Inr (map (\<lambda>split_df. (streaming, split_df)) (groupby_binned cats df)))))"

text \<open>
  The binning of a flow is exact when the first time minus one and the last time plus
  \<open>chunk_size\<close> are within 64 bits, so that neither wraps, and are less than \<open>2 ^ 53\<close>
  apart, so that the \<open>float64\<close> quotient \<open>np.arange\<close> takes its length from has the
  ceiling of the exact quotient.
\<close>

definition binning_exact :: "row list \<Rightarrow> int \<Rightarrow> bool" where
  "binning_exact df chunk_size =
     (- (2 ^ 63) \<le> time (hd df) - 1 \<and> time (last df) + chunk_size < 2 ^ 63 \<and>
      time (last df) + chunk_size - (time (hd df) - 1) < 2 ^ 53)"

text \<open>
  For such a flow and a positive \<open>chunk_size\<close>: the \<open>k\<close>-th value of \<open>bins\<close> in \<open>split\<close>,
  and the number of intervals between them (one less than the number of values of
  \<open>np.arange\<close>).
\<close>

definition bin_edge :: "row list \<Rightarrow> int \<Rightarrow> nat \<Rightarrow> int" where
  "bin_edge df chunk_size k = time (hd df) - 1 + int k * chunk_size"

definition n_bins :: "row list \<Rightarrow> int \<Rightarrow> nat" where
  "n_bins df chunk_size =
     nat (- ((time (hd df) - 1 - (time (last df) + chunk_size)) div chunk_size)) - 1"

subsection \<open>roll\<close>

text \<open>
  \<open>Series.rolling(w)\<close> with an integer \<open>w\<close> and \<open>.agg(['mean'])\<close>: the mean of the last
  \<open>w\<close> observations, and NaN (\<open>None\<close>) where fewer than \<open>w\<close> observations precede
  (\<open>min_periods\<close> is \<open>w\<close>), or when \<open>w\<close> is 0. Floating point is modelled by the reals.
\<close>

definition rolling_mean :: "nat \<Rightarrow> real list \<Rightarrow> real option list" where
  "rolling_mean w xs =
     map (\<lambda>i. if w = 0 \<or> Suc i < w then None
              else Some (sum_list (take w (drop (Suc i - w) xs)) / real w))
       [0..<length xs]"

text \<open>
  \<open>roll(df, column, seconds)\<close> on the column as a series of (index in milliseconds, value).
  The source computes \<open>window_width = pd.offsets.Second(seconds)\<close> and then calls
  \<open>.rolling(seconds)\<close>, with the integer: the index plays no part. A negative window
  raises ValueError.
\<close>

definition roll :: "(int \<times> real) list \<Rightarrow> int \<Rightarrow> error + real option list" where
  "roll col seconds =
     (if seconds < 0 then Inl ValueError
      else Inr (rolling_mean (nat seconds) (map snd col)))"

text \<open>
  What the specification asks of the rolling aggregate, in its words: at each observation,
  the mean over the trailing window of the given time width that ends at the observation's
  timestamp, \<open>(t - seconds, t]\<close>, whatever the number of observations in it.
\<close>

definition trailing_time_mean_spec :: "(int \<times> real) list \<Rightarrow> int \<Rightarrow> real option list" where
  "trailing_time_mean_spec col seconds =
     map (\<lambda>i. let t = fst (col ! i);
                  win = filter (\<lambda>(s, v). t - seconds * 1000 < s \<and> s \<le> t) (take (Suc i) col)
              in if win = [] then None
                 else Some (sum_list (map snd win) / real (length win)))
       [0..<length col]"

section \<open>features.py\<close>

subsection \<open>Raising computations in sequence\<close>

definition ebind :: "error + 'a \<Rightarrow> ('a \<Rightarrow> error + 'b) \<Rightarrow> error + 'b" where
  "ebind m f = (case m of Inl e \<Rightarrow> Inl e | Inr x \<Rightarrow> f x)"

fun sequence :: "(error + 'a) list \<Rightarrow> error + 'a list" where
  "sequence [] = Inr []"
| "sequence (m # ms) = ebind m (\<lambda>x. ebind (sequence ms) (\<lambda>xs. Inr (x # xs)))"

subsection \<open>engineer_features\<close>

text \<open>\<open>df.dropna(how='any')\<close> on the columns \<open>time\<close>, \<open>size\<close>, \<open>dir\<close>.\<close>

definition dropna :: "row list \<Rightarrow> packet list" where
  "dropna df =
     List.map_filter
       (\<lambda>r. case (size_bytes r, dir r) of
               (Some s, Some d) \<Rightarrow>
                 Some \<lparr>p_dt_time = dt_time r, p_time = time r, p_size = s, p_dir = d\<rparr>
             | _ \<Rightarrow> None)
       df"

text \<open>\<open>Series.sum()\<close> on an \<open>int64\<close> column wraps in 64 bits.\<close>

definition sent_bytes :: "packet list \<Rightarrow> int" where
  "sent_bytes df = int64 (sum_list (map p_size (filter (\<lambda>p. p_dir p = 1) df)))"

definition received_bytes :: "packet list \<Rightarrow> int" where
  "received_bytes df = int64 (sum_list (map p_size (filter (\<lambda>p. p_dir p = 2) df)))"

definition sent_packets :: "packet list \<Rightarrow> nat" where
  "sent_packets df = length (filter (\<lambda>p. p_dir p = 1) df)"

definition received_packets :: "packet list \<Rightarrow> nat" where
  "received_packets df = length (filter (\<lambda>p. p_dir p = 2) df)"

text \<open>\<open>Series.mean()\<close>: NaN on an empty selection.\<close>

definition series_mean :: "int list \<Rightarrow> real option" where
  "series_mean xs =
     (if xs = [] then None else Some (real_of_int (sum_list xs) / real (length xs)))"

text \<open>Python's \<open>/\<close> on two \<open>int\<close>s, as \<open>len(a) / len(b)\<close> is.\<close>

definition py_div :: "nat \<Rightarrow> nat \<Rightarrow> error + real" where
  "py_div a b = (if b = 0 then Inl ZeroDivisionError else Inr (real a / real b))"

text \<open>
  \<open>df.index.to_series().diff().dt.total_seconds() * 1000\<close>: the difference of each index
  value to the one before, in milliseconds; the first has none before it (NaN).
\<close>

fun index_diff :: "int list \<Rightarrow> real option list" where
  "index_diff [] = []"
| "index_diff (t # ts) = None # map2 (\<lambda>a b. Some (real_of_int (b - a))) (t # ts) ts"

text \<open>The second \<open>dropna\<close>, on the frame with its new column \<open>ip_delay\<close>.\<close>

definition dropna_delay :: "(packet \<times> real option) list \<Rightarrow> (packet \<times> real) list" where
  "dropna_delay df = List.map_filter (\<lambda>(p, d). map_option (Pair p) d) df"

text \<open>\<open>Series.mean()\<close> on a series with NaN: the mean of the other values, NaN if none.\<close>

definition nanmean :: "real option list \<Rightarrow> real option" where
  "nanmean xs =
     (let vs = List.map_filter id xs
      in if vs = [] then None else Some (sum_list vs / real (length vs)))"

text \<open>\<open>int(w / 1000)\<close>: truncation towards zero.\<close>

definition ms_to_seconds :: "int \<Rightarrow> int" where
  "ms_to_seconds w = (if 0 \<le> w then w div 1000 else - ((- w) div 1000))"

text \<open>
  The numerical library the spectral step calls, as parameters of the model: pandas'
  \<open>resample(rate).sum()\<close> on the time-indexed sizes, and scipy's \<open>welch\<close> (its second
  result, the power spectral density), \<open>find_peaks\<close> (the indices of the peaks) and
  \<open>peak_prominences\<close> (one prominence per peak). Each may raise.
\<close>

record numlib =
  resample_sum :: "string \<Rightarrow> (int \<times> int) list \<Rightarrow> error + int list"
  welch :: "int list \<Rightarrow> real \<Rightarrow> error + real list"
  find_peaks :: "real list \<Rightarrow> error + nat list"
  peak_prominences :: "real list \<Rightarrow> nat list \<Rightarrow> error + real list"

text \<open>\<open>ndarray.max()\<close>: raises ValueError on an array of size zero.\<close>

definition ndarray_max :: "real list \<Rightarrow> error + real" where
  "ndarray_max xs = (case xs of [] \<Rightarrow> Inl ValueError | x # ys \<Rightarrow> Inr (fold max ys x))"

text \<open>
  Lines 79 to 86: the four library calls, outside the \<open>try\<close>, and
  \<open>prominences.max()\<close> inside it, with 0 for whatever it raises.
\<close>

definition max_prominence :: "numlib \<Rightarrow> string \<Rightarrow> real \<Rightarrow> (int \<times> int) list \<Rightarrow> error + real" where
  "max_prominence lib resample_rate frequency sizes =
     ebind (resample_sum lib resample_rate sizes) (\<lambda>df_rs.
     ebind (welch lib df_rs frequency) (\<lambda>pxx_den.
     ebind (find_peaks lib (map sqrt pxx_den)) (\<lambda>peaks.
     ebind (peak_prominences lib (map sqrt pxx_den) peaks) (\<lambda>prominences.
       Inr (case ndarray_max prominences of Inl e \<Rightarrow> 0 | Inr m \<Rightarrow> m)))))"

text \<open>
  The feature vector, its fields named as the columns of the matrix are. A mean that
  can be NaN is an option. \<open>bytes_sr_ratio\<close> is the \<open>float64\<close> quotient of the two
  \<open>int64\<close> sums; the other quotients and means are modelled by the reals.
\<close>

record features =
  bytes_sr_ratio :: real
  count_sr_ratio :: real
  smoothed_mean_delay_10s :: "real option"
  smoothed_mean_delay_60s :: "real option"
  received_mean_size :: "real option"
  sent_mean_size :: "real option"
  sent_large_prop :: real
  sent_small_prop :: real
  received_large_prop :: real
  received_small_prop :: real
  sent_longest_streak :: nat
  received_longest_streak :: nat
  max_frequency_prominence :: real
  streaming :: int

text \<open>
  The frame after lines 75 and 76: each line with its inter-packet delay, the lines
  without one dropped.
\<close>

definition with_ip_delay :: "packet list \<Rightarrow> (packet \<times> real) list" where
  "with_ip_delay df = dropna_delay (zip df (index_diff (map p_dt_time df)))"

definition engineer_features ::
  "numlib \<Rightarrow> row list \<Rightarrow> int \<Rightarrow> int \<Rightarrow> int \<Rightarrow> string \<Rightarrow> real \<Rightarrow> error + features option" where
  "engineer_features lib df0 label rolling_window_1 rolling_window_2 resample_rate frequency =
     (let df = dropna df0 in
      if received_bytes df = 0 \<or> received_packets df = 0 then Inr None
      else
        (let sent = filter (\<lambda>p. p_dir p = 1) df;
             received = filter (\<lambda>p. p_dir p = 2) df;
             sent_large = filter (\<lambda>p. 1200 < p_size p) sent;
             sent_small = filter (\<lambda>p. p_size p < 200) sent;
             received_large = filter (\<lambda>p. 1200 < p_size p) received;
             received_small = filter (\<lambda>p. p_size p < 200) received;
             df1 = with_ip_delay df
         in
         ebind (py_div (length sent_large) (length sent)) (\<lambda>sl.
         ebind (py_div (length sent_small) (length sent)) (\<lambda>ss.
         ebind (py_div (length received_large) (length received)) (\<lambda>rl.
         ebind (py_div (length received_small) (length received)) (\<lambda>rs.
         ebind (max_prominence lib resample_rate frequency
                  (map (\<lambda>(p, d). (p_dt_time p, p_size p)) df1)) (\<lambda>df_max_prom.
         ebind (roll (map (\<lambda>(p, d). (p_dt_time p, d)) df1) (ms_to_seconds rolling_window_1)) (\<lambda>r10.
         ebind (roll (map (\<lambda>(p, d). (p_dt_time p, d)) df1) (ms_to_seconds rolling_window_2)) (\<lambda>r60.
           Inr (Some
             \<lparr>bytes_sr_ratio = float64_div (sent_bytes df) (received_bytes df),
              count_sr_ratio = real (sent_packets df) / real (received_packets df),
              smoothed_mean_delay_10s = nanmean r10,
              smoothed_mean_delay_60s = nanmean r60,
              received_mean_size = series_mean (map p_size received),
              sent_mean_size = series_mean (map p_size sent),
              sent_large_prop = sl,
              sent_small_prop = ss,
              received_large_prop = rl,
              received_small_prop = rs,
              sent_longest_streak = longest_dir_streak (map (\<lambda>(p, d). p_dir p) df1) 1,
              received_longest_streak = longest_dir_streak (map (\<lambda>(p, d). p_dir p) df1) 2,
              max_frequency_prominence = df_max_prom,
              streaming = label\<rparr>))))))))))"

subsection \<open>create_features\<close>

text \<open>\<open>np.vstack\<close> raises ValueError on an empty list of arrays.\<close>

definition np_vstack :: "'a list \<Rightarrow> error + 'a list" where
  "np_vstack arrays = (if arrays = [] then Inl ValueError else Inr arrays)"

text \<open>A row of the matrix that \<open>DataFrame.dropna()\<close> keeps: no NaN in it.\<close>

definition no_nan :: "features \<Rightarrow> bool" where
  "no_nan f =
     (smoothed_mean_delay_10s f \<noteq> None \<and> smoothed_mean_delay_60s f \<noteq> None \<and>
      received_mean_size f \<noteq> None \<and> sent_mean_size f \<noteq> None)"

text \<open>
  Lines 155 to 172 on the task list \<open>merged\<close>: \<open>pool.map\<close> gives the results in the order
  of the tasks and raises if a task raises; the results that are not \<open>None\<close> are
  stacked, and the rows with a NaN dropped.
\<close>

definition run_tasks ::
  "numlib \<Rightarrow> (int \<times> row list) list \<Rightarrow> int \<Rightarrow> int \<Rightarrow> string \<Rightarrow> real \<Rightarrow> error + features list" where
  "run_tasks lib merged rolling_window_1 rolling_window_2 resample_rate frequency =
     ebind (sequence (map (\<lambda>(key, df).
               engineer_features lib df key rolling_window_1 rolling_window_2
                 resample_rate frequency) merged)) (\<lambda>results.
     ebind (np_vstack (List.map_filter id results)) (\<lambda>feats.
       Inr (filter no_nan feats)))"

text \<open>
  \<open>create_features\<close> on the files that \<open>glob\<close> lists, each with its lines. The result is
  the frame written to the output file.
\<close>

definition create_features ::
  "numlib \<Rightarrow> (string \<times> row list) list \<Rightarrow> int \<Rightarrow> int \<Rightarrow> int \<Rightarrow> string \<Rightarrow> real \<Rightarrow>
   error + features list" where
  "create_features lib preprocessed_dfs chunk_size rolling_window_1 rolling_window_2
     resample_rate frequency =
     ebind (sequence (map (\<lambda>f. split f chunk_size) preprocessed_dfs)) (\<lambda>split_df_groups.
       run_tasks lib (concat split_df_groups) rolling_window_1 rolling_window_2
         resample_rate frequency)"

text \<open>
  What two runs are compared by: whether the run failed, and the rows of the matrix
  without their order.
\<close>

definition outcome :: "error + features list \<Rightarrow> features multiset option" where
  "outcome r = (case r of Inl e \<Rightarrow> None | Inr rows \<Rightarrow> Some (mset rows))"

section \<open>Example data\<close>

text \<open>
  A line of a flow that starts at time 0 (so that its elapsed time is its time), with
  its size and direction present.
\<close>

definition pkt :: "int \<Rightarrow> int \<Rightarrow> int \<Rightarrow> row" where
  "pkt t s d = \<lparr>dt_time = t, time = t, size_bytes = Some s, dir = Some d\<rparr>"

text \<open>
  A numerical library for the examples: one bucket per line, a spectral density without
  values, and so no peak and no prominence.
\<close>

definition lib_no_peaks :: numlib where
  "lib_no_peaks =
     \<lparr>resample_sum = (\<lambda>rate sizes. Inr (map snd sizes)),
      welch = (\<lambda>x fs. Inr []),
      find_peaks = (\<lambda>x. Inr []),
      peak_prominences = (\<lambda>x peaks. Inr [])\<rparr>"


section \<open>The longest streak\<close>

text \<open>
  A run of \<open>n\<close> packets in direction \<open>d\<close> is the list \<open>replicate n d\<close> as a contiguous
  part (\<open>sublist\<close>) of the sequence.
\<close>

lemma sublist_replicate_replicate:
  "sublist (replicate n (d::'a)) (replicate c d) \<longleftrightarrow> n \<le> c"
proof
  assume "sublist (replicate n d) (replicate c d)"
  then have "length (replicate n d) \<le> length (replicate c d)" by (rule sublist_length_le)
  then show "n \<le> c" by simp
next
  assume "n \<le> c"
  then have "replicate c d = replicate n d @ replicate (c - n) d"
    by (simp add: replicate_add [symmetric])
  then show "sublist (replicate n d) (replicate c d)"
    by (metis sublist_append_rightI)
qed

lemma prefix_replicate_other:
  "num \<noteq> d \<Longrightarrow> prefix (replicate n d) (num # ys) \<longleftrightarrow> n = 0"
  by (cases n) auto

lemma sublist_replicate_split:
  assumes "num \<noteq> d"
  shows "sublist (replicate n d) (xs @ num # ys) \<longleftrightarrow>
         sublist (replicate n d) xs \<or> sublist (replicate n d) ys"
proof -
  let ?r = "replicate n d"
  have third: "sublist ?r xs" if "?r = xs1 @ xs2" "suffix xs1 xs" "prefix xs2 (num # ys)" for xs1 xs2
  proof -
    have "set (xs1 @ xs2) \<subseteq> {d}" unfolding that(1) [symmetric] by auto
    then have "set xs2 \<subseteq> {d}" by simp
    with that(3) assms have "xs2 = []" by (cases xs2) auto
    with that(1,2) show ?thesis by (auto simp: suffix_def)
  qed
  have second: "sublist ?r (num # ys) \<longleftrightarrow> n = 0 \<or> sublist ?r ys"
    using assms by (auto simp: sublist_Cons_right prefix_replicate_other)
  have "sublist ?r (xs @ num # ys) \<longleftrightarrow> sublist ?r xs \<or> sublist ?r (num # ys) \<or>
     (\<exists>xs1 xs2. ?r = xs1 @ xs2 \<and> suffix xs1 xs \<and> prefix xs2 (num # ys))"
    by (rule sublist_append)
  then show ?thesis
    unfolding second using third by auto
qed


lemma streak_loop_sublist:
  "streak_loop d vals (l, c) = (l', c') \<Longrightarrow>
   n \<le> max l' c' \<longleftrightarrow> n \<le> l \<or> sublist (replicate n d) (replicate c d @ vals)"
proof (induction vals arbitrary: l c)
  case Nil
  then show ?case by (auto simp: sublist_replicate_replicate)
next
  case (Cons num vals)
  show ?case
  proof (cases "num = d")
    case True
    with Cons.prems have "streak_loop d vals (l, Suc c) = (l', c')" by simp
    from Cons.IH [OF this] show ?thesis using True
      by (simp add: replicate_app_Cons_same)
  next
    case False
    with Cons.prems have "streak_loop d vals (max l c, 0) = (l', c')" by simp
    from Cons.IH [OF this] show ?thesis using False
      by (auto simp: sublist_replicate_split sublist_replicate_replicate)
  qed
qed

lemma longest_dir_streak_sublist:
  "sublist (replicate n d) vals \<longleftrightarrow> n \<le> longest_dir_streak vals d"
proof -
  obtain l' c' where e: "streak_loop d vals (0, 0) = (l', c')" by (cases "streak_loop d vals (0, 0)")
  from streak_loop_sublist [OF e, of n] show ?thesis
    by (cases n) (auto simp: longest_dir_streak_def e)
qed

lemma longest_dir_streak_replicate: "longest_dir_streak (replicate n d) d = n"
proof -
  have "\<And>m. m \<le> longest_dir_streak (replicate n d) d \<longleftrightarrow> m \<le> n"
    by (simp add: longest_dir_streak_sublist [symmetric] sublist_replicate_replicate)
  then show ?thesis by (meson order_antisym order_refl)
qed

lemma distinct_adj_no_pair:
  "distinct_adj vals \<Longrightarrow> \<not> sublist [d, d] vals"
proof
  assume a: "distinct_adj vals" and "sublist [d, d] vals"
  then obtain ps ss where "vals = ps @ [d, d] @ ss" by (auto simp: sublist_def)
  with a have "distinct_adj ([d, d] @ ss)" by (metis distinct_adj_appendD2)
  then have "distinct_adj [d, d]" by (metis distinct_adj_appendD1)
  then show False by simp
qed

lemma longest_dir_streak_alternating:
  assumes "distinct_adj vals" "d \<in> set vals"
  shows "longest_dir_streak vals d = 1"
proof -
  from assms(2) obtain ps ss where "vals = ps @ [d] @ ss" by (auto simp: in_set_conv_decomp)
  then have "sublist (replicate 1 d) vals" by (auto simp: sublist_def)
  then have ge: "1 \<le> longest_dir_streak vals d" by (simp only: longest_dir_streak_sublist)
  have "\<not> sublist (replicate 2 d) vals"
    using distinct_adj_no_pair [OF assms(1), of d] by (simp add: numeral_2_eq_2)
  then have "\<not> 2 \<le> longest_dir_streak vals d"
    using longest_dir_streak_sublist [of 2 d vals] by blast
  with ge show ?thesis by simp
qed

text \<open>
  Claim C6. \<open>longest_dir_streak\<close> returns the length of the longest run of the target
  direction: the sequence has a run of \<open>k\<close> packets in that direction exactly when \<open>k\<close> is
  at most the result. In particular a constant sequence of \<open>n\<close> packets in the target
  direction gives \<open>n\<close>, a sequence in which no two neighbours are equal and the target
  occurs gives 1, and the empty sequence gives 0.
\<close>

theorem longest_dir_streak_is_longest_run:
  "(\<forall>k. sublist (replicate k d) vals \<longleftrightarrow> k \<le> longest_dir_streak vals d) \<and>
   longest_dir_streak (replicate n d) d = n \<and>
   (distinct_adj vals \<and> d \<in> set vals \<longrightarrow> longest_dir_streak vals d = 1) \<and>
   longest_dir_streak [] d = 0"
proof (intro conjI allI impI)
  fix k
  show "sublist (replicate k d) vals \<longleftrightarrow> k \<le> longest_dir_streak vals d"
    by (rule longest_dir_streak_sublist)
next
  show "longest_dir_streak (replicate n d) d = n"
    by (rule longest_dir_streak_replicate)
next
  assume "distinct_adj vals \<and> d \<in> set vals"
  then show "longest_dir_streak vals d = 1"
    by (simp add: longest_dir_streak_alternating)
next
  show "longest_dir_streak [] d = 0"
    by (simp add: longest_dir_streak_def)
qed

theorem longest_dir_streak_is_longest_run_witness:
  "distinct_adj [1, 2, 1, 2 :: int] \<and> (1 :: int) \<in> set [1, 2, 1, 2] \<and>
   longest_dir_streak [1, 2, 1, 2] 1 = 1 \<and>
   sublist (replicate 1 1) [1, 2, 1, 2 :: int] \<and>
   \<not> sublist (replicate 2 1) [1, 2, 1, 2 :: int] \<and>
   longest_dir_streak (replicate 3 1) 1 = 3"
proof -
  have h: "distinct_adj [1, 2, 1, 2 :: int] \<and> (1 :: int) \<in> set [1, 2, 1, 2]" by simp
  from longest_dir_streak_is_longest_run [of 1 "[1, 2, 1, 2]" 3] h
  have r: "longest_dir_streak [1, 2, 1, 2] 1 = 1"
    and s: "\<forall>k. sublist (replicate k 1) [1, 2, 1, 2 :: int] \<longleftrightarrow> k \<le> longest_dir_streak [1, 2, 1, 2] 1"
    and c: "longest_dir_streak (replicate 3 1) 1 = 3"
    by blast+
  from s r have "sublist (replicate 1 1) [1, 2, 1, 2 :: int]"
    and "\<not> sublist (replicate 2 1) [1, 2, 1, 2 :: int]" by simp_all
  with h r c show ?thesis by blast
qed

section \<open>Machine numbers\<close>

lemma int64_id: "- (2 ^ 63) \<le> x \<Longrightarrow> x < 2 ^ 63 \<Longrightarrow> int64 x = x"
  by (simp add: int64_def)

text \<open>Rounding to the nearest integer.\<close>

lemma rne_cases: "rne x = \<lfloor>x\<rfloor> \<or> rne x = \<lfloor>x\<rfloor> + 1"
  by (simp add: rne_def Let_def)

lemma rne_of_int [simp]: "rne (real_of_int n) = n"
  by (simp add: rne_def)

lemma rne_ge_floor: "\<lfloor>x\<rfloor> \<le> rne x"
  using rne_cases [of x] by auto

lemma rne_le_ceiling: "rne x \<le> \<lceil>x\<rceil>"
proof (cases "x = real_of_int \<lfloor>x\<rfloor>")
  case True
  then have "rne x = \<lfloor>x\<rfloor>" by (metis rne_of_int)
  then show ?thesis by (simp add: floor_le_ceiling)
next
  case False
  then have "\<lceil>x\<rceil> = \<lfloor>x\<rfloor> + 1" by (metis ceiling_altdef)
  with rne_cases [of x] show ?thesis by auto
qed

lemma rne_error: "\<bar>real_of_int (rne x) - x\<bar> \<le> 1 / 2"
proof -
  have "real_of_int \<lfloor>x\<rfloor> \<le> x" "x < real_of_int \<lfloor>x\<rfloor> + 1" by linarith+
  then show ?thesis by (auto simp: rne_def Let_def)
qed

lemma rne_mono: "x \<le> y \<Longrightarrow> rne x \<le> rne y"
proof (cases "\<lfloor>x\<rfloor> = \<lfloor>y\<rfloor>")
  case True
  assume "x \<le> y"
  with True show ?thesis by (auto simp: rne_def Let_def)
next
  case False
  assume "x \<le> y"
  then have "\<lfloor>x\<rfloor> \<le> \<lfloor>y\<rfloor>" by (rule floor_mono)
  with False have "\<lfloor>x\<rfloor> + 1 \<le> \<lfloor>y\<rfloor>" by simp
  with rne_cases [of x] rne_ge_floor [of y] show ?thesis by auto
qed

lemma ulp64_pos: "0 < ulp64 x"
  by (simp add: ulp64_def)

lemma binade:
  assumes "0 < x"
  shows "2 powr real_of_int \<lfloor>log 2 x\<rfloor> \<le> x \<and> x < 2 powr (real_of_int \<lfloor>log 2 x\<rfloor> + 1)"
  using floor_log_eq_powr_iff [of x 2 "\<lfloor>log 2 x\<rfloor>"] assms by simp

lemma ulp64_eq:
  assumes "2 powr real_of_int k \<le> \<bar>x\<bar>" "\<bar>x\<bar> < 2 powr (real_of_int k + 1)"
  shows "ulp64 x = 2 powr (real_of_int k - 52)"
proof -
  have "(0::real) < 2 powr real_of_int k" by simp
  with assms(1) have "0 < \<bar>x\<bar>" by linarith
  with assms have "\<lfloor>log 2 \<bar>x\<bar>\<rfloor> = k" by (simp add: floor_log_eq_powr_iff)
  then show ?thesis by (simp add: ulp64_def)
qed

lemma ulp64_scale:
  assumes "x \<noteq> 0"
  shows "2 ^ 52 * ulp64 x = 2 powr real_of_int \<lfloor>log 2 \<bar>x\<bar>\<rfloor>"
    and "2 ^ 53 * ulp64 x = 2 powr (real_of_int \<lfloor>log 2 \<bar>x\<bar>\<rfloor> + 1)"
proof -
  let ?e = "real_of_int \<lfloor>log 2 \<bar>x\<bar>\<rfloor>"
  have p: "(2::real) powr 52 = 2 ^ 52" "(2::real) powr 53 = 2 ^ 53" by simp_all
  have "2 powr 52 * 2 powr (?e - 52) = 2 powr ?e" by (simp only: powr_add [symmetric]) simp
  then show "2 ^ 52 * ulp64 x = 2 powr ?e" by (simp only: p ulp64_def)
  have "53 + (?e - 52) = ?e + 1" by simp
  then have "2 powr 53 * 2 powr (?e - 52) = 2 powr (?e + 1)" by (simp only: powr_add [symmetric])
  then show "2 ^ 53 * ulp64 x = 2 powr (?e + 1)" by (simp only: p ulp64_def)
qed

lemma ulp64_bounds:
  assumes "0 < x"
  shows "2 ^ 52 * ulp64 x \<le> x \<and> x < 2 ^ 53 * ulp64 x"
proof -
  from assms have "x \<noteq> 0" "\<bar>x\<bar> = x" by simp_all
  from ulp64_scale [OF this(1)] binade [OF assms] this(2) show ?thesis by simp
qed


lemma float64_pos_bounds:
  assumes "0 < x"
  shows "2 powr real_of_int \<lfloor>log 2 x\<rfloor> \<le> float64 x"
    and "float64 x \<le> 2 powr (real_of_int \<lfloor>log 2 x\<rfloor> + 1)"
proof -
  let ?u = "ulp64 x"
  from assms have nz: "x \<noteq> 0" and ab: "\<bar>x\<bar> = x" by simp_all
  note b = ulp64_bounds [OF assms]
  have up: "0 < ?u" by (rule ulp64_pos)
  from b up have "2 ^ 52 \<le> x / ?u" by (simp add: pos_le_divide_eq)
  then have "(2 ^ 52 :: int) \<le> \<lfloor>x / ?u\<rfloor>" by (simp add: le_floor_iff)
  with rne_ge_floor [of "x / ?u"] have "(2 ^ 52 :: int) \<le> rne (x / ?u)" by linarith
  then have "(2 ^ 52 :: real) \<le> real_of_int (rne (x / ?u))" by (metis of_int_le_iff of_int_numeral of_int_power)
  then have "2 ^ 52 * ?u \<le> real_of_int (rne (x / ?u)) * ?u" using up by (simp only: mult_le_cancel_right_pos)
  then show "2 powr real_of_int \<lfloor>log 2 x\<rfloor> \<le> float64 x"
    using ulp64_scale(1) [OF nz] nz ab by (simp add: float64_def)
  from b up have "x / ?u \<le> 2 ^ 53" by (simp add: pos_divide_le_eq)
  then have "\<lceil>x / ?u\<rceil> \<le> (2 ^ 53 :: int)" by (simp add: ceiling_le_iff)
  with rne_le_ceiling [of "x / ?u"] have "rne (x / ?u) \<le> (2 ^ 53 :: int)" by linarith
  then have "real_of_int (rne (x / ?u)) \<le> (2 ^ 53 :: real)" by (metis of_int_le_iff of_int_numeral of_int_power)
  then have "real_of_int (rne (x / ?u)) * ?u \<le> 2 ^ 53 * ?u" using up by (simp only: mult_le_cancel_right_pos)
  then show "float64 x \<le> 2 powr (real_of_int \<lfloor>log 2 x\<rfloor> + 1)"
    using ulp64_scale(2) [OF nz] nz ab by (simp add: float64_def)
qed

lemma float64_pos: "0 < x \<Longrightarrow> 0 < float64 x"
proof -
  assume "0 < x"
  from float64_pos_bounds(1) [OF this]
  have "2 powr real_of_int \<lfloor>log 2 x\<rfloor> \<le> float64 x" .
  moreover have "(0::real) < 2 powr real_of_int \<lfloor>log 2 x\<rfloor>" by simp
  ultimately show ?thesis by linarith
qed

lemma abs_scale:
  fixes a b u :: real
  assumes "0 < u"
  shows "\<bar>a - b / u\<bar> * u = \<bar>a * u - b\<bar>"
proof -
  have "(a - b / u) * u = a * u - b" using assms by (simp add: field_simps)
  then have "\<bar>a * u - b\<bar> = \<bar>a - b / u\<bar> * \<bar>u\<bar>" by (simp only: abs_mult [symmetric])
  with assms show ?thesis by simp
qed

lemma float64_error: "\<bar>float64 x - x\<bar> \<le> ulp64 x / 2"
proof (cases "x = 0")
  case True
  then show ?thesis using ulp64_pos [of 0] by (simp add: float64_def)
next
  case False
  let ?u = "ulp64 x"
  have up: "0 < ?u" by (rule ulp64_pos)
  have "\<bar>real_of_int (rne (x / ?u)) - x / ?u\<bar> \<le> 1 / 2" by (rule rne_error)
  then have "\<bar>real_of_int (rne (x / ?u)) - x / ?u\<bar> * ?u \<le> 1 / 2 * ?u"
    using up by (simp only: mult_le_cancel_right_pos)
  moreover have "\<bar>real_of_int (rne (x / ?u)) - x / ?u\<bar> * ?u = \<bar>real_of_int (rne (x / ?u)) * ?u - x\<bar>"
    using up by (rule abs_scale)
  ultimately show ?thesis using False by (simp add: float64_def)
qed


lemma float64_nonpos: "x \<le> 0 \<Longrightarrow> float64 x \<le> 0"
proof (cases "x = 0")
  case True
  then show ?thesis by (simp add: float64_def)
next
  case False
  assume "x \<le> 0"
  have up: "0 < ulp64 x" by (rule ulp64_pos)
  with \<open>x \<le> 0\<close> have "x / ulp64 x \<le> 0" by (simp add: divide_nonpos_pos)
  then have "\<lceil>x / ulp64 x\<rceil> \<le> 0" by (simp add: ceiling_le_iff)
  with rne_le_ceiling [of "x / ulp64 x"] have "rne (x / ulp64 x) \<le> 0" by linarith
  then have "real_of_int (rne (x / ulp64 x)) \<le> 0" by simp
  with up have "real_of_int (rne (x / ulp64 x)) * ulp64 x \<le> 0"
    by (simp add: mult_nonpos_nonneg)
  with False show ?thesis by (simp add: float64_def)
qed

lemma float64_integral:
  assumes "x \<noteq> 0" "x / ulp64 x = real_of_int m"
  shows "float64 x = x"
proof -
  have up: "ulp64 x \<noteq> 0" using ulp64_pos [of x] by simp
  have "float64 x = real_of_int (rne (real_of_int m)) * ulp64 x"
    using assms by (simp add: float64_def)
  also have "\<dots> = x / ulp64 x * ulp64 x" by (simp add: assms(2))
  also have "\<dots> = x" using up by simp
  finally show ?thesis .
qed

lemma float64_of_int:
  assumes "0 \<le> n" "n \<le> 2 ^ 53"
  shows "float64 (real_of_int n) = real_of_int n"
proof (cases "n = 0")
  case True
  then show ?thesis by (simp add: float64_def)
next
  case False
  with assms(1) have pos: "0 < real_of_int n" by simp
  define e where "e = \<lfloor>log 2 (real_of_int n)\<rfloor>"
  have b: "2 powr real_of_int e \<le> real_of_int n" "real_of_int n < 2 powr (real_of_int e + 1)"
    using binade [OF pos] by (simp_all add: e_def)
  have u: "ulp64 (real_of_int n) = 2 powr (real_of_int e - 52)"
    using pos by (simp add: ulp64_def e_def)
  have p53: "(2::real) powr real_of_int 53 = 2 ^ 53" by (simp add: powr_real_of_int)
  have "real_of_int n \<le> 2 ^ 53" using assms(2)
    by (metis of_int_le_iff of_int_numeral of_int_power)
  with b(1) have "2 powr real_of_int e \<le> 2 powr real_of_int 53" by (simp only: p53)
  then have "real_of_int e \<le> real_of_int 53" by (subst (asm) powr_le_cancel_iff) simp_all
  then have e53: "e \<le> 53" by (simp only: of_int_le_iff)
  have "\<exists>m. real_of_int n / ulp64 (real_of_int n) = real_of_int m"
  proof (cases "e \<le> 52")
    case True
    then have "real_of_int (52 - e) = 52 - real_of_int e" "0 \<le> 52 - e" by simp_all
    then have "(2::real) powr (52 - real_of_int e) = 2 ^ nat (52 - e)"
      by (metis powr_real_of_int zero_less_numeral)
    moreover have "real_of_int n / 2 powr (real_of_int e - 52) = real_of_int n * 2 powr (52 - real_of_int e)"
      by (simp add: powr_minus [symmetric] divide_inverse)
    ultimately have "real_of_int n / ulp64 (real_of_int n) = real_of_int (n * 2 ^ nat (52 - e))"
      by (simp add: u)
    then show ?thesis by blast
  next
    case False
    with e53 have e: "e = 53" by simp
    with b(1) have "2 ^ 53 \<le> real_of_int n" by simp
    then have "(2 ^ 53 :: int) \<le> n" by (metis of_int_le_iff of_int_numeral of_int_power)
    with assms(2) have n: "n = 2 ^ 53" by simp
    have u2: "ulp64 (real_of_int n) = 2" unfolding u e by simp
    have "real_of_int n / 2 = real_of_int (2 ^ 52)" unfolding n by simp
    then have "real_of_int n / ulp64 (real_of_int n) = real_of_int (2 ^ 52)"
      by (simp only: u2)
    then show ?thesis by blast
  qed
  then obtain m where "real_of_int n / ulp64 (real_of_int n) = real_of_int m" by blast
  from float64_integral [OF _ this] pos show ?thesis by simp
qed

lemma floor_log_mono:
  assumes "0 < x" "x \<le> y"
  shows "\<lfloor>log 2 x\<rfloor> \<le> \<lfloor>log 2 y\<rfloor>"
  using assms by (intro floor_mono) simp

lemma ulp64_mono:
  assumes "0 < x" "x \<le> y"
  shows "ulp64 x \<le> ulp64 y"
  using floor_log_mono [OF assms] assms by (simp add: ulp64_def)

lemma float64_mono:
  assumes "0 \<le> x" "x \<le> y"
  shows "float64 x \<le> float64 y"
proof (cases "x = 0")
  case True
  show ?thesis
  proof (cases "y = 0")
    case True
    with \<open>x = 0\<close> show ?thesis by simp
  next
    case False
    with assms True have "0 < y" by simp
    from float64_pos [OF this] True show ?thesis by (simp add: float64_def)
  qed
next
  case False
  with assms have px: "0 < x" and py: "0 < y" by simp_all
  have le: "\<lfloor>log 2 x\<rfloor> \<le> \<lfloor>log 2 y\<rfloor>" by (rule floor_log_mono [OF px assms(2)])
  show ?thesis
  proof (cases "\<lfloor>log 2 x\<rfloor> = \<lfloor>log 2 y\<rfloor>")
    case True
    then have u: "ulp64 x = ulp64 y" using px py by (simp add: ulp64_def)
    have up: "0 < ulp64 y" by (rule ulp64_pos)
    then have "x / ulp64 y \<le> y / ulp64 y" using assms(2) by (simp add: divide_right_mono)
    then have "rne (x / ulp64 y) \<le> rne (y / ulp64 y)" by (rule rne_mono)
    then have "real_of_int (rne (x / ulp64 y)) * ulp64 y \<le> real_of_int (rne (y / ulp64 y)) * ulp64 y"
      using up by (simp only: mult_le_cancel_right_pos of_int_le_iff)
    then show ?thesis using px py by (simp add: float64_def u)
  next
    case False
    with le have "\<lfloor>log 2 x\<rfloor> + 1 \<le> \<lfloor>log 2 y\<rfloor>" by simp
    then have "real_of_int \<lfloor>log 2 x\<rfloor> + 1 \<le> real_of_int \<lfloor>log 2 y\<rfloor>" by linarith
    then have "(2::real) powr (real_of_int \<lfloor>log 2 x\<rfloor> + 1) \<le> 2 powr real_of_int \<lfloor>log 2 y\<rfloor>"
      by simp
    with float64_pos_bounds(2) [OF px] float64_pos_bounds(1) [OF py] show ?thesis by linarith
  qed
qed

lemma real_pow_of_int_less: "(a::int) < 2 ^ n \<Longrightarrow> real_of_int a < 2 ^ n"
proof -
  assume "a < 2 ^ n"
  then have "real_of_int a < real_of_int (2 ^ n)" by (simp only: of_int_less_iff)
  then show ?thesis by simp
qed

lemma ceiling_float64_quotient:
  fixes a b :: int
  assumes "0 < a" "a < 2 ^ 53" "0 < b"
  shows "\<lceil>float64 (real_of_int a / real_of_int b)\<rceil> = \<lceil>real_of_int a / real_of_int b\<rceil>"
proof -
  define q where "q = real_of_int a / real_of_int b"
  define n where "n = \<lceil>q\<rceil>"
  have bpos: "0 < real_of_int b" and b1: "1 \<le> real_of_int b" using assms(3) by simp_all
  have apos: "0 < real_of_int a" using assms(1) by simp
  have qpos: "0 < q" unfolding q_def using apos bpos by (rule divide_pos_pos)
  have qn: "q \<le> real_of_int n" "real_of_int n - 1 < q" unfolding n_def by linarith+
  have bq: "q * real_of_int b = real_of_int a" using bpos by (simp add: q_def)
  have "q * 1 \<le> q * real_of_int b" using qpos b1 by (intro mult_left_mono) simp_all
  then have "q \<le> real_of_int a" by (simp add: bq)
  then have "n \<le> a" unfolding n_def by (simp add: ceiling_le_iff)
  have "0 < n" using qpos qn(1) by linarith
  have "float64 (real_of_int n) = real_of_int n"
    using \<open>0 < n\<close> \<open>n \<le> a\<close> assms(2) by (intro float64_of_int) simp_all
  with float64_mono [of q "real_of_int n"] qpos qn(1)
  have upper: "float64 q \<le> real_of_int n" by simp
  have lower: "real_of_int n - 1 < float64 q"
  proof (cases "n = 1")
    case True
    with float64_pos [OF qpos] show ?thesis by simp
  next
    case False
    have "(real_of_int n - 1) * real_of_int b < q * real_of_int b"
      using qn(2) bpos by (rule mult_strict_right_mono)
    then have "real_of_int ((n - 1) * b) < real_of_int a" by (simp add: bq)
    then have "(n - 1) * b < a" by (simp only: of_int_less_iff)
    then have "(n - 1) * b + 1 \<le> a" by simp
    then have "real_of_int ((n - 1) * b + 1) \<le> real_of_int a" by (simp only: of_int_le_iff)
    then have "(real_of_int n - 1) * real_of_int b + 1 \<le> q * real_of_int b" by (simp add: bq)
    then have "1 \<le> (q - (real_of_int n - 1)) * real_of_int b" by (simp add: algebra_simps)
    then have gap: "1 / real_of_int b \<le> q - (real_of_int n - 1)"
      using bpos by (simp add: pos_divide_le_eq)
    have "2 ^ 52 * ulp64 q \<le> q" using ulp64_bounds [OF qpos] by simp
    then have "2 ^ 52 * ulp64 q * real_of_int b \<le> q * real_of_int b"
      using bpos by (intro mult_right_mono) simp_all
    then have "2 ^ 52 * ulp64 q * real_of_int b \<le> real_of_int a" by (simp only: bq)
    also have "real_of_int a < 2 ^ 53" by (rule real_pow_of_int_less [OF assms(2)])
    finally have "2 ^ 52 * (ulp64 q * real_of_int b) < 2 ^ 52 * 2" by (simp add: mult.assoc)
    then have "ulp64 q * real_of_int b < 2" by (simp only: mult_less_cancel_left_pos zero_less_power zero_less_numeral)
    then have "ulp64 q / 2 * real_of_int b < 1" by simp
    then have "ulp64 q / 2 < 1 / real_of_int b" using bpos by (simp add: pos_less_divide_eq)
    with gap have "ulp64 q / 2 < q - (real_of_int n - 1)" by linarith
    moreover have "q - float64 q \<le> ulp64 q / 2" using float64_error [of q] by linarith
    ultimately show ?thesis by linarith
  qed
  from lower upper have "\<lceil>float64 q\<rceil> = n" by (intro ceiling_unique) simp_all
  then show ?thesis by (simp add: n_def q_def)
qed

lemma float64_quotient_strict:
  fixes a a' :: int and r :: real
  assumes "0 \<le> a" "a < a'" "a' < 2 ^ 51" "0 < r"
  shows "float64 (real_of_int a / r) < float64 (real_of_int a' / r)"
proof -
  define q where "q = real_of_int a / r"
  define q' where "q' = real_of_int a' / r"
  have a'pos: "0 < real_of_int a'" using assms(1,2) by simp
  have q'pos: "0 < q'" unfolding q'_def using a'pos assms(4) by (rule divide_pos_pos)
  have "real_of_int a \<le> real_of_int a'" using assms(2) by simp
  then have qq': "q \<le> q'" unfolding q_def q'_def using assms(4) by (intro divide_right_mono) simp_all
  have q'r: "q' * r = real_of_int a'" using assms(4) by (simp add: q'_def)
  show ?thesis
  proof (cases "a = 0")
    case True
    with float64_pos [OF q'pos] show ?thesis by (simp add: q'_def float64_def)
  next
    case False
    with assms(1) have "0 < real_of_int a" by simp
    then have qpos: "0 < q" unfolding q_def using assms(4) by (rule divide_pos_pos)
    have "real_of_int a + 1 \<le> real_of_int a'" using assms(2) by linarith
    then have "(real_of_int a + 1) / r \<le> real_of_int a' / r"
      using assms(4) by (intro divide_right_mono) simp_all
    then have gap: "1 / r \<le> q' - q" by (simp add: q_def q'_def add_divide_distrib)
    have "2 ^ 52 * ulp64 q' \<le> q'" using ulp64_bounds [OF q'pos] by simp
    then have "2 ^ 52 * ulp64 q' * r \<le> q' * r"
      using assms(4) by (intro mult_right_mono) simp_all
    then have "2 ^ 52 * ulp64 q' * r \<le> real_of_int a'" by (simp only: q'r)
    also have "real_of_int a' < 2 ^ 51" by (rule real_pow_of_int_less [OF assms(3)])
    finally have "2 ^ 51 * (2 * ulp64 q' * r) < 2 ^ 51 * 1" by (simp add: mult.assoc)
    then have "2 * ulp64 q' * r < 1" by (simp only: mult_less_cancel_left_pos zero_less_power zero_less_numeral)
    then have "2 * ulp64 q' < 1 / r" using assms(4) by (simp add: pos_less_divide_eq)
    with gap have g: "2 * ulp64 q' < q' - q" by linarith
    have "float64 q - q \<le> ulp64 q / 2" using float64_error [of q] by linarith
    moreover have "ulp64 q \<le> ulp64 q'" by (rule ulp64_mono [OF qpos qq'])
    moreover have "q' - float64 q' \<le> ulp64 q' / 2" using float64_error [of q'] by linarith
    moreover have "0 < ulp64 q'" by (rule ulp64_pos)
    ultimately have "float64 q < float64 q'" using g by linarith
    then show ?thesis by (simp add: q_def q'_def)
  qed
qed

lemma float64_div_mono:
  assumes "0 \<le> a" "a \<le> a'" "0 < r"
  shows "float64_div a r \<le> float64_div a' r"
proof -
  have r: "0 < float64 (real_of_int r)" using assms(3) by (intro float64_pos) simp
  have le: "float64 (real_of_int a) \<le> float64 (real_of_int a')"
    using assms(1,2) by (intro float64_mono) simp_all
  have "float64 0 \<le> float64 (real_of_int a)" using assms(1) by (intro float64_mono) simp_all
  then have nn: "0 \<le> float64 (real_of_int a)" by (simp add: float64_def)
  have "0 \<le> float64 (real_of_int a) / float64 (real_of_int r)"
    using nn r by (intro divide_nonneg_pos)
  moreover have "float64 (real_of_int a) / float64 (real_of_int r) \<le> float64 (real_of_int a') / float64 (real_of_int r)"
    using le r by (intro divide_right_mono) simp_all
  ultimately show ?thesis unfolding float64_div_def by (rule float64_mono)
qed

lemma float64_div_strict:
  assumes "0 \<le> a" "a < a'" "a' < 2 ^ 51" "0 < r"
  shows "float64_div a r < float64_div a' r"
proof -
  have r: "0 < float64 (real_of_int r)" using assms(4) by (intro float64_pos) simp
  have "a \<le> 2 ^ 53" "a' \<le> 2 ^ 53" "0 \<le> a'" using assms(1,2,3) by simp_all
  then have "float64 (real_of_int a) = real_of_int a" "float64 (real_of_int a') = real_of_int a'"
    using assms(1) by (simp_all add: float64_of_int)
  then show ?thesis
    unfolding float64_div_def using float64_quotient_strict [OF assms(1,2,3) r] by simp
qed

lemma float64_div_exact_ceiling:
  assumes "0 < a" "a < 2 ^ 53" "0 < b" "b < 2 ^ 53"
  shows "\<lceil>float64_div a b\<rceil> = - ((- a) div b)"
proof -
  have "0 \<le> a" "a \<le> 2 ^ 53" "0 \<le> b" "b \<le> 2 ^ 53" using assms by simp_all
  then have "float64 (real_of_int a) = real_of_int a" "float64 (real_of_int b) = real_of_int b"
    by (simp_all add: float64_of_int)
  then have "\<lceil>float64_div a b\<rceil> = \<lceil>real_of_int a / real_of_int b\<rceil>"
    unfolding float64_div_def using ceiling_float64_quotient [OF assms(1,2,3)] by simp
  also have "\<dots> = - \<lfloor>real_of_int (- a) / real_of_int b\<rfloor>"
    by (simp add: ceiling_def)
  also have "\<dots> = - ((- a) div b)" by (simp only: floor_divide_of_int_eq)
  finally show ?thesis .
qed

lemma float64_binade_eq:
  assumes "2 powr real_of_int k \<le> \<bar>x\<bar>" "\<bar>x\<bar> < 2 powr (real_of_int k + 1)"
  shows "float64 x = real_of_int (rne (x / 2 powr (real_of_int k - 52))) * 2 powr (real_of_int k - 52)"
proof -
  have "(0::real) < 2 powr real_of_int k" by simp
  with assms(1) have "x \<noteq> 0" by auto
  with ulp64_eq [OF assms] show ?thesis by (simp add: float64_def)
qed

lemma float64_2p53_plus_1: "float64 9007199254740993 = 9007199254740992"
proof -
  have "float64 9007199254740993 =
    real_of_int (rne (9007199254740993 / 2 powr (real_of_int 53 - 52))) * 2 powr (real_of_int 53 - 52)"
    by (rule float64_binade_eq) (simp_all add: powr_real_of_int)
  also have "\<dots> = 9007199254740992" by (simp add: rne_def)
  finally show ?thesis .
qed

lemma float64_div_2p53_plus_1:
  "float64_div 9007199254740993 1 = float64_div 9007199254740992 1"
proof -
  have a: "float64 (real_of_int 9007199254740992) = real_of_int 9007199254740992"
    by (rule float64_of_int) simp_all
  have b: "float64 (real_of_int 1) = real_of_int 1" by (rule float64_of_int) simp_all
  from a b show ?thesis using float64_2p53_plus_1 by (simp add: float64_div_def)
qed

section \<open>The windows of a flow\<close>

lemma ceil_div_bounds:
  fixes a c :: int
  assumes "0 < c"
  shows "(- ((- a) div c) - 1) * c < a \<and> a \<le> - ((- a) div c) * c"
proof -
  define q where "q = (- a) div c"
  define r where "r = (- a) mod c"
  have e: "- a = q * c + r" unfolding q_def r_def by simp
  have "0 \<le> r" "r < c" using assms unfolding r_def by simp_all
  with e have "(- q - 1) * c < a \<and> a \<le> - q * c" by (simp add: algebra_simps)
  then show ?thesis unfolding q_def .
qed

lemma zip_map_upt_tl:
  "zip (map f [0..<n]) (tl (map f [0..<n])) = map (\<lambda>k. (f k, f (Suc k))) [0..<n - 1]"
  by (rule nth_equalityI) (auto simp: nth_tl)

lemma strict_sorted_map_upt:
  fixes f :: "nat \<Rightarrow> int"
  assumes "\<And>i j. i < j \<Longrightarrow> f i < f j"
  shows "sorted_wrt (<) (map f [0..<n])"
  by (simp add: sorted_wrt_iff_nth_less assms)

lemma np_arange_pos:
  assumes "0 < step" "step < 2 ^ 53" "start < stop" "stop - start < 2 ^ 53"
    and "- (2 ^ 63) \<le> start" "stop < 2 ^ 63"
  shows "np_arange start stop step =
     Inr (map (\<lambda>k. start + int k * step) [0..<nat (- ((start - stop) div step))])"
proof -
  define a where "a = stop - start"
  define N where "N = - ((- a) div step)"
  have a: "0 < a" "a < 2 ^ 53" using assms(3,4) by (simp_all add: a_def)
  then have "int64 a = a" by (intro int64_id) simp_all
  moreover have "\<lceil>float64_div a step\<rceil> = N"
    unfolding N_def by (rule float64_div_exact_ceiling [OF a assms(1,2)])
  ultimately have len: "\<lceil>float64_div (int64 (stop - start)) step\<rceil> = N"
    by (simp add: a_def)
  have b: "(N - 1) * step < a"
    using ceil_div_bounds [OF assms(1), of a] by (simp add: N_def)
  have "int64 (start + int k * step) = start + int k * step" if "k < nat N" for k
  proof (rule int64_id)
    have "0 \<le> int k * step" using assms(1) by simp
    with assms(5) show "- (2 ^ 63) \<le> start + int k * step" by linarith
    from that have "int k \<le> N - 1" by simp
    then have "int k * step \<le> (N - 1) * step" using assms(1) by (intro mult_right_mono) simp_all
    with b have "start + int k * step < stop" by (simp add: a_def)
    with assms(6) show "start + int k * step < 2 ^ 63" by linarith
  qed
  then have "map (\<lambda>k. int64 (start + int k * step)) [0..<nat N] =
             map (\<lambda>k. start + int k * step) [0..<nat N]"
    by (intro map_cong) simp_all
  moreover have "N = - ((start - stop) div step)" by (simp add: N_def a_def)
  ultimately show ?thesis using assms(1) len by (simp add: np_arange_def)
qed

lemma pd_cut_arith:
  assumes "0 < (step::int)"
  shows "pd_cut (map (\<lambda>k. start + int k * step) [0..<n]) =
     Inr (map (\<lambda>k. (start + int k * step, start + int (Suc k) * step)) [0..<n - 1])"
proof -
  have "sorted_wrt (<) (map (\<lambda>k. start + int k * step) [0..<n])"
    using assms by (intro strict_sorted_map_upt) simp
  then have "sorted (map (\<lambda>k. start + int k * step) [0..<n]) \<and> distinct (map (\<lambda>k. start + int k * step) [0..<n])"
    by (simp only: strict_sorted_iff)
  then show ?thesis
    unfolding pd_cut_def by (simp only: zip_map_upt_tl if_False not_True_eq_False not_not simp_thms)
qed


lemma split_pos:
  assumes "df \<noteq> []" "0 < chunk_size" "time (hd df) \<le> time (last df)"
    and "binning_exact df chunk_size"
  shows "split (filename, df) chunk_size =
     Inr (map (\<lambda>k. (if sublist ''novideo'' filename then 0 else 1,
                     filter (\<lambda>r. bin_edge df chunk_size k < time r \<and>
                                 time r \<le> bin_edge df chunk_size (Suc k)) df))
            [0..<n_bins df chunk_size])"
proof -
  let ?s = "time (hd df) - 1"
  let ?e = "time (last df) + chunk_size"
  from assms(4) have r: "- (2 ^ 63) \<le> ?s" "?e < 2 ^ 63" "?e - ?s < 2 ^ 53"
    by (simp_all add: binning_exact_def)
  have lt: "?s < ?e" using assms(2,3) by simp
  with r have w: "int64 ?s = ?s" "int64 ?e = ?e" by (simp_all add: int64_id)
  have c: "chunk_size < 2 ^ 53" using r(3) assms(3) by simp
  have "np_arange ?s ?e chunk_size =
     Inr (map (\<lambda>k. ?s + int k * chunk_size) [0..<nat (- ((?s - ?e) div chunk_size))])"
    by (rule np_arange_pos [OF assms(2) c lt r(3) r(1) r(2)])
  with assms(1,2) show ?thesis
    by (simp add: split_def Let_def w pd_cut_arith groupby_binned_def in_bin_def
        bin_edge_def n_bins_def comp_def)
qed

lemma sorted_hd_le_last:
  fixes xs :: "int list"
  assumes "sorted xs" "x \<in> set xs"
  shows "hd xs \<le> x \<and> x \<le> last xs"
  using assms
proof (induction xs)
  case Nil
  then show ?case by simp
next
  case (Cons y ys)
  show ?case
  proof (cases "ys = []")
    case True
    with Cons.prems show ?thesis by simp
  next
    case False
    then have "last ys \<in> set ys" by simp
    with Cons show ?thesis using False by auto
  qed
qed

lemma n_bins_bounds:
  assumes "df \<noteq> []" "0 < chunk_size" "time (hd df) \<le> time (last df)"
  shows "time (last df) \<le> bin_edge df chunk_size (n_bins df chunk_size) \<and>
         bin_edge df chunk_size (n_bins df chunk_size) < time (last df) + chunk_size \<and>
         0 < n_bins df chunk_size"
proof -
  define a where "a = time (last df) + chunk_size - (time (hd df) - 1)"
  define N where "N = - ((- a) div chunk_size)"
  have b: "(N - 1) * chunk_size < a" "a \<le> N * chunk_size"
    using ceil_div_bounds [OF assms(2), of a] by (simp_all add: N_def)
  have "chunk_size < a" using assms(3) by (simp add: a_def)
  with b(2) have "chunk_size < N * chunk_size" by simp
  then have "1 < N" using assms(2) by (simp add: mult_less_cancel_right2)
  have n: "int (n_bins df chunk_size) = N - 1"
    using \<open>1 < N\<close> by (simp add: n_bins_def N_def a_def algebra_simps)
  have e: "bin_edge df chunk_size (n_bins df chunk_size) = time (hd df) - 1 + (N - 1) * chunk_size"
    by (simp only: bin_edge_def n)
  from b have "time (last df) \<le> time (hd df) - 1 + (N - 1) * chunk_size"
    and "time (hd df) - 1 + (N - 1) * chunk_size < time (last df) + chunk_size"
    by (simp_all add: a_def algebra_simps)
  with e \<open>1 < N\<close> n show ?thesis by simp
qed

lemma unique_bin:
  fixes s c t :: int
  assumes "0 < c" "s < t" "t \<le> s + int m * c"
  shows "\<exists>!k. k < m \<and> s + int k * c < t \<and> t \<le> s + int (Suc k) * c"
proof -
  define q where "q = (t - s - 1) div c"
  define r where "r = (t - s - 1) mod c"
  have e: "t - s - 1 = q * c + r" unfolding q_def r_def by simp
  have r: "0 \<le> r" "r < c" using assms(1) unfolding r_def by simp_all
  have "0 \<le> q" unfolding q_def using assms(1,2) by (simp add: pos_imp_zdiv_nonneg_iff)
  have lo: "s + q * c < t" using e r by simp
  have hi: "t \<le> s + (q + 1) * c" using e r by (simp add: algebra_simps)
  from lo assms(3) have "q * c < int m * c" by simp
  then have "q < int m" using assms(1) by (simp only: mult_less_cancel_right_pos)
  have ex: "nat q < m \<and> s + int (nat q) * c < t \<and> t \<le> s + int (Suc (nat q)) * c"
    using \<open>0 \<le> q\<close> \<open>q < int m\<close> lo hi by (simp add: algebra_simps)
  have uniq: "k = k'" 
    if "s + int k * c < t \<and> t \<le> s + int (Suc k) * c"
       "s + int k' * c < t \<and> t \<le> s + int (Suc k') * c" for k k'
  proof -
    from that have "int k * c < int (Suc k') * c" "int k' * c < int (Suc k) * c" by linarith+
    then have "int k < int (Suc k')" "int k' < int (Suc k)"
      using assms(1) by (simp_all only: mult_less_cancel_right_pos)
    then show ?thesis by simp
  qed
  show ?thesis
  proof (rule ex1I [of _ "nat q"])
    show "nat q < m \<and> s + int (nat q) * c < t \<and> t \<le> s + int (Suc (nat q)) * c" by (rule ex)
  next
    fix k assume "k < m \<and> s + int k * c < t \<and> t \<le> s + int (Suc k) * c"
    then show "k = nat q" using uniq [of k "nat q"] ex by blast
  qed
qed

lemma mset_concat_filter_Cons:
  "mset (concat (map (\<lambda>k. filter (P k) (x # xs)) ks)) =
   mset (concat (map (\<lambda>k. filter (P k) xs) ks)) + replicate_mset (length (filter (\<lambda>k. P k x) ks)) x"
  by (induction ks) simp_all

lemma length_filter_unique:
  assumes "\<exists>!k. k < m \<and> Q k"
  shows "length (filter Q [0..<m]) = 1"
proof -
  from assms obtain k where k: "k < m" "Q k" and u: "\<And>j. j < m \<Longrightarrow> Q j \<Longrightarrow> j = k" by blast
  have "{i. i < length [0..<m] \<and> Q ([0..<m] ! i)} = {k}"
  proof (rule set_eqI)
    fix i
    show "i \<in> {i. i < length [0..<m] \<and> Q ([0..<m] ! i)} \<longleftrightarrow> i \<in> {k}"
    proof (cases "i < m")
      case True
      then show ?thesis using k u [of i] by auto
    next
      case False
      then show ?thesis using k by auto
    qed
  qed
  then have "card {i. i < length [0..<m] \<and> Q ([0..<m] ! i)} = 1" by simp
  then show ?thesis by (simp only: length_filter_conv_card)
qed

lemma mset_concat_filter_partition:
  assumes "\<And>x. x \<in> set xs \<Longrightarrow> \<exists>!k. k < m \<and> P k x"
  shows "mset (concat (map (\<lambda>k. filter (P k) xs) [0..<m])) = mset xs"
  using assms
proof (induction xs)
  case Nil
  show ?case by (induction m) simp_all
next
  case (Cons x xs)
  have "length (filter (\<lambda>k. P k x) [0..<m]) = 1"
    by (rule length_filter_unique) (simp add: Cons.prems)
  moreover have "mset (concat (map (\<lambda>k. filter (P k) xs) [0..<m])) = mset xs"
    by (rule Cons.IH) (simp add: Cons.prems)
  ultimately show ?case by (simp only: mset_concat_filter_Cons) simp
qed

lemma row_in_range:
  assumes "sorted (map time df)" "r \<in> set df"
  shows "time (hd df) \<le> time r \<and> time r \<le> time (last df)"
proof -
  from assms(2) have ne: "df \<noteq> []" by auto
  have "time r \<in> set (map time df)" using assms(2) by simp
  from sorted_hd_le_last [OF assms(1) this] show ?thesis
    using ne by (simp add: hd_map last_map)
qed

text \<open>
  Where the binning wraps, \<open>split\<close> raises on a flow that has lines: for a single line at
  time \<open>2 ^ 63 - 3\<close> and \<open>chunk_size\<close> 10, the end \<open>values[-1] + chunk_size\<close> wraps to a
  negative number, the two bin edges decrease, and \<open>pd.cut\<close> raises ValueError.
\<close>

lemma split_wraps_example:
  "split (''preprocessed-a.csv'', [pkt 9223372036854775805 100 1]) 10 = Inl ValueError"
proof -
  have "\<lceil>float64_div 11 10\<rceil> = - ((- 11) div 10)"
    by (rule float64_div_exact_ceiling) simp_all
  then have n: "nat \<lceil>float64_div 11 10\<rceil> = 2" by simp
  have u: "[0..<2] = [0, Suc 0]" by (simp add: upt_rec)
  show ?thesis
    by (simp add: split_def Let_def pkt_def int64_def np_arange_def n u pd_cut_def)
qed

text \<open>
  Claim C1, as amended. For a flow with at least one line, its times in order, a positive
  \<open>chunk_size\<close> and an exact binning (nothing wraps in 64 bits, and the range of the
  binning is below \<open>2 ^ 53\<close>), \<open>split\<close> returns one window per interval between
  consecutive bin edges; the edges start at the first time minus one and advance by
  \<open>chunk_size\<close>; the last edge is at or after the last time, less than \<open>chunk_size\<close> after
  it. Window \<open>k\<close> holds the lines whose time is in the interval open on the left and
  closed on the right, \<open>(edge k, edge (k + 1)]\<close>. These intervals cover
  \<open>(first time - 1, last edge]\<close> with no gap and no overlap: every time in that range is
  in exactly one of them. Every line of the flow is in exactly one window, and the
  windows together hold the lines of the flow, each as often as the flow does. A line
  whose time is a bin edge is in the window that ends at that edge, not in the one that
  starts there.
\<close>

theorem split_partitions_flow:
  assumes "df \<noteq> []" "0 < chunk_size" "sorted (map time df)" "binning_exact df chunk_size"
  shows "\<exists>ws. split (filename, df) chunk_size = Inr ws \<and>
     length ws = n_bins df chunk_size \<and>
     (\<forall>k < n_bins df chunk_size. snd (ws ! k) =
        filter (\<lambda>r. bin_edge df chunk_size k < time r \<and> time r \<le> bin_edge df chunk_size (Suc k)) df) \<and>
     bin_edge df chunk_size 0 = time (hd df) - 1 \<and>
     (\<forall>k. bin_edge df chunk_size (Suc k) = bin_edge df chunk_size k + chunk_size) \<and>
     time (last df) \<le> bin_edge df chunk_size (n_bins df chunk_size) \<and>
     bin_edge df chunk_size (n_bins df chunk_size) < time (last df) + chunk_size \<and>
     (\<forall>t. bin_edge df chunk_size 0 < t \<and> t \<le> bin_edge df chunk_size (n_bins df chunk_size) \<longrightarrow>
        (\<exists>!k. k < n_bins df chunk_size \<and>
           bin_edge df chunk_size k < t \<and> t \<le> bin_edge df chunk_size (Suc k))) \<and>
     (\<forall>r \<in> set df. \<exists>!k. k < length ws \<and> r \<in> set (snd (ws ! k))) \<and>
     mset (concat (map snd ws)) = mset df \<and>
     (\<forall>r \<in> set df. \<forall>k. Suc k < n_bins df chunk_size \<and> time r = bin_edge df chunk_size (Suc k) \<longrightarrow>
        r \<in> set (snd (ws ! k)) \<and> r \<notin> set (snd (ws ! Suc k)))"
proof -
  let ?n = "n_bins df chunk_size"
  let ?e = "bin_edge df chunk_size"
  let ?lbl = "if sublist ''novideo'' filename then 0 else (1::int)"
  let ?P = "\<lambda>k r. ?e k < time r \<and> time r \<le> ?e (Suc k)"
  define ws where "ws = map (\<lambda>k. (?lbl, filter (?P k) df)) [0..<?n]"
  have hl: "time (hd df) \<le> time (last df)"
    using row_in_range [OF assms(3), of "last df"] assms(1) by simp
  have sp: "split (filename, df) chunk_size = Inr ws"
    unfolding ws_def by (rule split_pos [OF assms(1,2) hl assms(4)])
  have len: "length ws = ?n" by (simp add: ws_def)
  have nth: "snd (ws ! k) = filter (?P k) df" if "k < ?n" for k
    using that by (simp add: ws_def)
  have e0: "?e 0 = time (hd df) - 1" by (simp add: bin_edge_def)
  have eS: "?e (Suc k) = ?e k + chunk_size" for k by (simp add: bin_edge_def algebra_simps)
  note nb = n_bins_bounds [OF assms(1,2) hl]
  have cover: "\<exists>!k. k < ?n \<and> ?e k < t \<and> t \<le> ?e (Suc k)"
    if "?e 0 < t \<and> t \<le> ?e ?n" for t
    using unique_bin [of chunk_size "time (hd df) - 1" t ?n] assms(2) that
    unfolding bin_edge_def by simp
  have inr: "?e 0 < time r \<and> time r \<le> ?e ?n" if "r \<in> set df" for r
    using row_in_range [OF assms(3) that] nb e0 by simp
  have one: "\<exists>!k. k < ?n \<and> ?P k r" if "r \<in> set df" for r
    using cover [OF inr [OF that]] .
  have one': "\<exists>!k. k < length ws \<and> r \<in> set (snd (ws ! k))" if "r \<in> set df" for r
  proof -
    have "(k < length ws \<and> r \<in> set (snd (ws ! k))) = (k < ?n \<and> ?P k r)" for k
      using that nth [of k] len by auto
    then show ?thesis using one [OF that] by simp
  qed
  have ms: "mset (concat (map snd ws)) = mset df"
  proof -
    have "map snd ws = map (\<lambda>k. filter (?P k) df) [0..<?n]" by (simp add: ws_def comp_def)
    then show ?thesis using mset_concat_filter_partition [of df ?n ?P] one by simp
  qed
  have bd: "r \<in> set (snd (ws ! k)) \<and> r \<notin> set (snd (ws ! Suc k))"
    if "r \<in> set df" "Suc k < ?n \<and> time r = ?e (Suc k)" for r k
  proof -
    have "?e k < ?e (Suc k)" using assms(2) by (simp add: eS)
    with that nth [of k] nth [of "Suc k"] show ?thesis by simp
  qed
  from sp len nth e0 eS nb cover one' ms bd show ?thesis by blast
qed

theorem split_partitions_flow_witness:
  "[pkt 0 100 1, pkt 9 100 2, pkt 10 100 2] \<noteq> [] \<and> (0::int) < 10 \<and>
   sorted (map time [pkt 0 100 1, pkt 9 100 2, pkt 10 100 2]) \<and>
   binning_exact [pkt 0 100 1, pkt 9 100 2, pkt 10 100 2] 10 \<and>
   (\<exists>ws. split (''preprocessed-a.csv'', [pkt 0 100 1, pkt 9 100 2, pkt 10 100 2]) 10 = Inr ws \<and>
      length ws = 2 \<and>
      mset (concat (map snd ws)) = mset [pkt 0 100 1, pkt 9 100 2, pkt 10 100 2])"
proof -
  have h: "[pkt 0 100 1, pkt 9 100 2, pkt 10 100 2] \<noteq> []" "(0::int) < 10"
    "sorted (map time [pkt 0 100 1, pkt 9 100 2, pkt 10 100 2])"
    "binning_exact [pkt 0 100 1, pkt 9 100 2, pkt 10 100 2] 10"
    by (simp_all add: pkt_def binning_exact_def)
  have n: "n_bins [pkt 0 100 1, pkt 9 100 2, pkt 10 100 2] 10 = 2"
    by (simp add: n_bins_def pkt_def)
  from split_partitions_flow [OF h, of "''preprocessed-a.csv''"] obtain ws where
    "split (''preprocessed-a.csv'', [pkt 0 100 1, pkt 9 100 2, pkt 10 100 2]) 10 = Inr ws"
    "length ws = n_bins [pkt 0 100 1, pkt 9 100 2, pkt 10 100 2] 10"
    "mset (concat (map snd ws)) = mset [pkt 0 100 1, pkt 9 100 2, pkt 10 100 2]"
    by blast
  with h n show ?thesis by auto
qed

text \<open>
  The claim as stated fails on the flow with times 0, 9, 10 and \<open>chunk_size\<close> 10. The bin
  edges are -1, 9, 19; the line at time 9 is on an edge, and it is in the first window,
  which ends at 9, not in the second, which starts there. The last edge is 19, so the
  intervals do not reach \<open>tN + chunk_size = 20\<close>.
\<close>

theorem split_boundary_counterexample:
  "split (''preprocessed-a.csv'', [pkt 0 100 1, pkt 9 100 2, pkt 10 100 2]) 10 =
     Inr [(1, [pkt 0 100 1, pkt 9 100 2]), (1, [pkt 10 100 2])] \<and>
   map (bin_edge [pkt 0 100 1, pkt 9 100 2, pkt 10 100 2] 10) [0, 1, 2] = [-1, 9, 19] \<and>
   n_bins [pkt 0 100 1, pkt 9 100 2, pkt 10 100 2] 10 = 2 \<and>
   time (pkt 9 100 2) = 9"
proof -
  have h: "[pkt 0 100 1, pkt 9 100 2, pkt 10 100 2] \<noteq> []" "(0::int) < 10" "time (hd [pkt 0 100 1, pkt 9 100 2, pkt 10 100 2]) \<le> time (last [pkt 0 100 1, pkt 9 100 2, pkt 10 100 2])"
    "binning_exact [pkt 0 100 1, pkt 9 100 2, pkt 10 100 2] 10"
    by (simp_all add: pkt_def binning_exact_def)
  have n: "n_bins [pkt 0 100 1, pkt 9 100 2, pkt 10 100 2] 10 = 2" by (simp add: n_bins_def pkt_def)
  have u: "[0..<2] = [0, Suc 0]" by (simp add: upt_rec)
  have "split (''preprocessed-a.csv'', [pkt 0 100 1, pkt 9 100 2, pkt 10 100 2]) 10 =
     Inr [(1, [pkt 0 100 1, pkt 9 100 2]), (1, [pkt 10 100 2])]"
    unfolding split_pos [OF h] n u
    by (simp add: bin_edge_def pkt_def sublist_code)
  then show ?thesis by (simp add: n) (simp add: bin_edge_def pkt_def)
qed

text \<open>
  Claim C7, as amended. On a flow with at least one line, its last time not before its
  first, with a positive \<open>chunk_size\<close> and an exact binning, \<open>split\<close> returns and raises
  nothing. On a flow without lines it raises IndexError (at \<open>df['time'].values[0]\<close>) and
  yields no sequence of windows at all.
\<close>

theorem split_raises_only_on_empty:
  "(df \<noteq> [] \<and> 0 < chunk_size \<and> time (hd df) \<le> time (last df) \<and> binning_exact df chunk_size
      \<longrightarrow> (\<exists>ws. split (filename, df) chunk_size = Inr ws)) \<and>
   split (filename, []) chunk_size = Inl IndexError"
proof (intro conjI impI)
  assume "df \<noteq> [] \<and> 0 < chunk_size \<and> time (hd df) \<le> time (last df) \<and> binning_exact df chunk_size"
  then show "\<exists>ws. split (filename, df) chunk_size = Inr ws"
    by (simp add: split_pos)
next
  show "split (filename, []) chunk_size = Inl IndexError"
    by (simp add: split_def)
qed

theorem split_raises_only_on_empty_witness:
  "[pkt 0 100 1, pkt 9 100 2] \<noteq> [] \<and> (0::int) < 10 \<and>
   time (hd [pkt 0 100 1, pkt 9 100 2]) \<le> time (last [pkt 0 100 1, pkt 9 100 2]) \<and>
   binning_exact [pkt 0 100 1, pkt 9 100 2] 10 \<and>
   (\<exists>ws. split (''preprocessed-a.csv'', [pkt 0 100 1, pkt 9 100 2]) 10 = Inr ws)"
proof -
  have h: "[pkt 0 100 1, pkt 9 100 2] \<noteq> [] \<and> (0::int) < 10 \<and>
     time (hd [pkt 0 100 1, pkt 9 100 2]) \<le> time (last [pkt 0 100 1, pkt 9 100 2]) \<and>
     binning_exact [pkt 0 100 1, pkt 9 100 2] 10"
    by (simp add: pkt_def binning_exact_def)
  with split_raises_only_on_empty [of "[pkt 0 100 1, pkt 9 100 2]" 10 "''preprocessed-a.csv''"]
  show ?thesis by blast
qed

theorem split_empty_counterexample:
  "split (''preprocessed-a.csv'', []) 10 = Inl IndexError"
  by (simp add: split_def)

section \<open>The feature vector of a window\<close>

lemma ebind_Inl [simp]: "ebind (Inl e) f = Inl e"
  by (simp add: ebind_def)

lemma ebind_Inr [simp]: "ebind (Inr x) f = f x"
  by (simp add: ebind_def)

lemma ebind_eq_Inr: "ebind m f = Inr y \<longleftrightarrow> (\<exists>x. m = Inr x \<and> f x = Inr y)"
  by (cases m) simp_all

lemma py_div_zero: "py_div a 0 = Inl ZeroDivisionError"
  by (simp add: py_div_def)

lemma engineer_features_skip:
  "received_bytes (dropna df) = 0 \<or> received_packets (dropna df) = 0 \<Longrightarrow>
   engineer_features lib df label rw1 rw2 rr fq = Inr None"
  by (simp add: engineer_features_def Let_def)

lemma engineer_features_zero_sent:
  assumes "received_bytes (dropna df) \<noteq> 0" "received_packets (dropna df) \<noteq> 0"
    "sent_packets (dropna df) = 0"
  shows "engineer_features lib df label rw1 rw2 rr fq = Inl ZeroDivisionError"
proof -
  from assms(3) have "length (filter (\<lambda>p. p_dir p = 1) (dropna df)) = 0"
    by (simp add: sent_packets_def)
  with assms(1,2) show ?thesis
    by (simp add: engineer_features_def Let_def py_div_zero)
qed

lemma engineer_features_SomeD:
  assumes "engineer_features lib df label rw1 rw2 rr fq = Inr (Some f)"
  shows "received_bytes (dropna df) \<noteq> 0"
    and "received_packets (dropna df) \<noteq> 0"
    and "bytes_sr_ratio f = float64_div (sent_bytes (dropna df)) (received_bytes (dropna df))"
    and "sent_longest_streak f = longest_dir_streak (map (\<lambda>(p, d). p_dir p) (with_ip_delay (dropna df))) 1"
    and "received_longest_streak f = longest_dir_streak (map (\<lambda>(p, d). p_dir p) (with_ip_delay (dropna df))) 2"
    and "max_prominence lib rr fq (map (\<lambda>(p, d). (p_dt_time p, p_size p)) (with_ip_delay (dropna df)))
           = Inr (max_frequency_prominence f)"
proof -
  have ns: "\<not> (received_bytes (dropna df) = 0 \<or> received_packets (dropna df) = 0)"
  proof
    assume "received_bytes (dropna df) = 0 \<or> received_packets (dropna df) = 0"
    from engineer_features_skip [OF this, of lib label rw1 rw2 rr fq] assms show False by simp
  qed
  then show "received_bytes (dropna df) \<noteq> 0" "received_packets (dropna df) \<noteq> 0" by simp_all
  have "\<exists>sl ss rl rs mp r10 r60. max_prominence lib rr fq (map (\<lambda>(p, d). (p_dt_time p, p_size p)) (with_ip_delay (dropna df))) = Inr mp \<and>
      f = \<lparr>bytes_sr_ratio = float64_div (sent_bytes (dropna df)) (received_bytes (dropna df)),
              count_sr_ratio = real (sent_packets (dropna df)) / real (received_packets (dropna df)),
              smoothed_mean_delay_10s = nanmean r10,
              smoothed_mean_delay_60s = nanmean r60,
              received_mean_size = series_mean (map p_size (filter (\<lambda>p. p_dir p = 2) (dropna df))),
              sent_mean_size = series_mean (map p_size (filter (\<lambda>p. p_dir p = 1) (dropna df))),
              sent_large_prop = sl,
              sent_small_prop = ss,
              received_large_prop = rl,
              received_small_prop = rs,
              sent_longest_streak = longest_dir_streak (map (\<lambda>(p, d). p_dir p) (with_ip_delay (dropna df))) 1,
              received_longest_streak = longest_dir_streak (map (\<lambda>(p, d). p_dir p) (with_ip_delay (dropna df))) 2,
              max_frequency_prominence = mp,
              streaming = label\<rparr>"
    using assms ns unfolding engineer_features_def Let_def
    by (simp only: if_False ebind_eq_Inr sum.inject option.inject) blast
  then obtain sl ss rl rs mp r10 r60 where
    mp: "max_prominence lib rr fq (map (\<lambda>(p, d). (p_dt_time p, p_size p)) (with_ip_delay (dropna df))) = Inr mp"
    and f: "max_frequency_prominence f = mp"
      "bytes_sr_ratio f = float64_div (sent_bytes (dropna df)) (received_bytes (dropna df))"
      "sent_longest_streak f = longest_dir_streak (map (\<lambda>(p, d). p_dir p) (with_ip_delay (dropna df))) 1"
      "received_longest_streak f = longest_dir_streak (map (\<lambda>(p, d). p_dir p) (with_ip_delay (dropna df))) 2"
    by auto
  show "bytes_sr_ratio f = float64_div (sent_bytes (dropna df)) (received_bytes (dropna df))"
    by (simp add: f)
  show "sent_longest_streak f = longest_dir_streak (map (\<lambda>(p, d). p_dir p) (with_ip_delay (dropna df))) 1"
    by (simp add: f)
  show "received_longest_streak f = longest_dir_streak (map (\<lambda>(p, d). p_dir p) (with_ip_delay (dropna df))) 2"
    by (simp add: f)
  show "max_prominence lib rr fq (map (\<lambda>(p, d). (p_dt_time p, p_size p)) (with_ip_delay (dropna df)))
           = Inr (max_frequency_prominence f)"
    by (simp add: f mp)
qed


lemma dropna_delay_Some: "dropna_delay (zip ps (map Some ds)) = zip ps ds"
proof (induction ps arbitrary: ds)
  case Nil
  show ?case by (simp add: dropna_delay_def map_filter_simps)
next
  case (Cons p ps)
  show ?case
  proof (cases ds)
    case Nil
    then show ?thesis by (simp add: dropna_delay_def map_filter_simps)
  next
    case (Cons d ds')
    with Cons.IH [of ds'] show ?thesis by (simp add: dropna_delay_def map_filter_simps)
  qed
qed

lemma with_ip_delay_Cons:
  "with_ip_delay (p # ps) =
     zip ps (map2 (\<lambda>a b. real_of_int (b - a)) (map p_dt_time (p # ps)) (map p_dt_time ps))"
proof -
  have "map2 (\<lambda>a b. Some (real_of_int (b - a))) (map p_dt_time (p # ps)) (map p_dt_time ps) =
        map Some (map2 (\<lambda>a b. real_of_int (b - a)) (map p_dt_time (p # ps)) (map p_dt_time ps))"
    by (simp add: case_prod_beta)
  then have "with_ip_delay (p # ps) =
     dropna_delay (zip ps (map Some (map2 (\<lambda>a b. real_of_int (b - a)) (map p_dt_time (p # ps)) (map p_dt_time ps))))"
    by (simp add: with_ip_delay_def dropna_delay_def map_filter_simps del: zip_map_map map_map)
  then show ?thesis by (simp only: dropna_delay_Some)
qed

lemma with_ip_delay_fst: "map fst (with_ip_delay df) = tl df"
proof (cases df)
  case Nil
  then show ?thesis by (simp add: with_ip_delay_def dropna_delay_def map_filter_simps)
next
  case (Cons p ps)
  have "length (map2 (\<lambda>a b. real_of_int (b - a)) (map p_dt_time (p # ps)) (map p_dt_time ps)) = length ps"
    by simp
  then show ?thesis unfolding Cons with_ip_delay_Cons by (simp only: map_fst_zip list.sel)
qed

lemma with_ip_delay_dir: "map (\<lambda>(p, d). p_dir p) (with_ip_delay df) = map p_dir (tl df)"
proof -
  have "map (\<lambda>(p, d). p_dir p) (with_ip_delay df) = map p_dir (map fst (with_ip_delay df))"
    by (simp add: case_prod_beta comp_def)
  then show ?thesis by (simp only: with_ip_delay_fst)
qed

lemma with_ip_delay_sizes:
  "map (\<lambda>(p, d). (p_dt_time p, p_size p)) (with_ip_delay df) = map (\<lambda>p. (p_dt_time p, p_size p)) (tl df)"
proof -
  have "map (\<lambda>(p, d). (p_dt_time p, p_size p)) (with_ip_delay df) =
        map (\<lambda>p. (p_dt_time p, p_size p)) (map fst (with_ip_delay df))"
    by (simp add: case_prod_beta comp_def)
  then show ?thesis by (simp only: with_ip_delay_fst)
qed

text \<open>The definitions that evaluate \<open>engineer_features\<close> on a given window.\<close>

lemmas feature_eval = engineer_features_def Let_def dropna_def map_filter_simps pkt_def
  int64_def received_bytes_def received_packets_def sent_bytes_def sent_packets_def py_div_def
  with_ip_delay_Cons max_prominence_def lib_no_peaks_def ndarray_max_def roll_def
  ms_to_seconds_def rolling_mean_def nanmean_def series_mean_def longest_dir_streak_def

lemma sequence_append:
  "sequence (ms1 @ ms2) = ebind (sequence ms1) (\<lambda>a. ebind (sequence ms2) (\<lambda>b. Inr (a @ b)))"
proof (induction ms1)
  case Nil
  show ?case by (cases "sequence ms2") simp_all
next
  case (Cons m ms1)
  show ?case
  proof (cases m)
    case (Inl e)
    then show ?thesis by simp
  next
    case (Inr x)
    then show ?thesis
      by (cases "sequence ms1"; cases "sequence ms2") (simp_all add: Cons.IH)
  qed
qed

lemma map_filter_app:
  "List.map_filter f (xs @ ys) = List.map_filter f xs @ List.map_filter f ys"
  by (simp add: List.map_filter_def)

lemma sequence_skip:
  "ebind (sequence (ms1 @ Inr None # ms2)) (\<lambda>results. g (List.map_filter id results)) =
   ebind (sequence (ms1 @ ms2)) (\<lambda>results. g (List.map_filter id results))"
  by (cases "sequence ms1"; cases "sequence ms2")
     (simp_all add: sequence_append [of ms1 "Inr None # ms2"] sequence_append [of ms1 ms2]
        map_filter_simps map_filter_app)

text \<open>
  Claim C3. A window in which, after the lines with a missing cell are dropped, the
  received bytes or the received packets are zero, makes \<open>engineer_features\<close> return
  \<open>None\<close>, and it adds no row to the matrix: the run on a task list with such a window
  gives what the run on the list without it gives.
\<close>

theorem skipped_window_contributes_no_row:
  assumes "received_bytes (dropna df) = 0 \<or> received_packets (dropna df) = 0"
  shows "engineer_features lib df label rw1 rw2 rr fq = Inr None \<and>
         run_tasks lib (ts1 @ (label, df) # ts2) rw1 rw2 rr fq = run_tasks lib (ts1 @ ts2) rw1 rw2 rr fq"
proof
  show s: "engineer_features lib df label rw1 rw2 rr fq = Inr None"
    by (rule engineer_features_skip [OF assms])
  show "run_tasks lib (ts1 @ (label, df) # ts2) rw1 rw2 rr fq = run_tasks lib (ts1 @ ts2) rw1 rw2 rr fq"
  proof -
    let ?F = "\<lambda>(key, df). engineer_features lib df key rw1 rw2 rr fq"
    let ?g = "\<lambda>rows. ebind (np_vstack rows) (\<lambda>feats. Inr (filter no_nan feats))"
    have "run_tasks lib (ts1 @ (label, df) # ts2) rw1 rw2 rr fq =
          ebind (sequence (map ?F ts1 @ Inr None # map ?F ts2))
            (\<lambda>results. ?g (List.map_filter id results))"
      by (simp add: run_tasks_def s)
    also have "\<dots> = ebind (sequence (map ?F ts1 @ map ?F ts2))
            (\<lambda>results. ?g (List.map_filter id results))"
      by (rule sequence_skip)
    also have "\<dots> = run_tasks lib (ts1 @ ts2) rw1 rw2 rr fq"
      by (simp add: run_tasks_def)
    finally show ?thesis .
  qed
qed


theorem skipped_window_contributes_no_row_witness:
  "(received_bytes (dropna [pkt 0 100 1, pkt 5 40 1]) = 0 \<or>
    received_packets (dropna [pkt 0 100 1, pkt 5 40 1]) = 0) \<and>
   engineer_features lib_no_peaks [pkt 0 100 1, pkt 5 40 1] 1 1000 2000 ''500ms'' 2 = Inr None \<and>
   run_tasks lib_no_peaks
     [(1, [pkt 0 100 1, pkt 5 40 1]), (1, [pkt 0 100 1, pkt 10 300 2, pkt 30 1500 2])]
     1000 2000 ''500ms'' 2 =
   run_tasks lib_no_peaks [(1, [pkt 0 100 1, pkt 10 300 2, pkt 30 1500 2])] 1000 2000 ''500ms'' 2"
proof -
  have h: "received_bytes (dropna [pkt 0 100 1, pkt 5 40 1]) = 0 \<or>
           received_packets (dropna [pkt 0 100 1, pkt 5 40 1]) = 0"
    by (simp add: received_bytes_def int64_def dropna_def map_filter_simps pkt_def)
  from skipped_window_contributes_no_row [OF h, of lib_no_peaks 1 1000 2000 "''500ms''" 2 "[]"
      "[(1, [pkt 0 100 1, pkt 10 300 2, pkt 30 1500 2])]"] h
  show ?thesis by simp
qed

text \<open>
  Claim C4. A window that passes the skip check and has no sent packet makes the first
  proportion, \<open>len(sent_large) / len(df[df['dir'] == 1])\<close>, a division by zero:
  \<open>engineer_features\<close> raises ZeroDivisionError, so it neither skips the window nor
  returns a feature vector.
\<close>

theorem zero_sent_divides_by_zero:
  assumes "received_bytes (dropna df) \<noteq> 0" "received_packets (dropna df) \<noteq> 0"
    "sent_packets (dropna df) = 0"
  shows "engineer_features lib df label rw1 rw2 rr fq = Inl ZeroDivisionError \<and>
         py_div (length (filter (\<lambda>p. 1200 < p_size p) (filter (\<lambda>p. p_dir p = 1) (dropna df))))
           (length (filter (\<lambda>p. p_dir p = 1) (dropna df))) = Inl ZeroDivisionError"
proof
  show "engineer_features lib df label rw1 rw2 rr fq = Inl ZeroDivisionError"
    by (rule engineer_features_zero_sent [OF assms])
  from assms(3) show "py_div (length (filter (\<lambda>p. 1200 < p_size p) (filter (\<lambda>p. p_dir p = 1) (dropna df))))
           (length (filter (\<lambda>p. p_dir p = 1) (dropna df))) = Inl ZeroDivisionError"
    by (simp add: sent_packets_def py_div_zero)
qed

theorem zero_sent_divides_by_zero_witness:
  "received_bytes (dropna [pkt 0 300 2, pkt 10 1500 2]) \<noteq> 0 \<and>
   received_packets (dropna [pkt 0 300 2, pkt 10 1500 2]) \<noteq> 0 \<and>
   sent_packets (dropna [pkt 0 300 2, pkt 10 1500 2]) = 0 \<and>
   engineer_features lib_no_peaks [pkt 0 300 2, pkt 10 1500 2] 1 1000 2000 ''500ms'' 2
     = Inl ZeroDivisionError"
proof -
  have h: "received_bytes (dropna [pkt 0 300 2, pkt 10 1500 2]) \<noteq> 0"
    "received_packets (dropna [pkt 0 300 2, pkt 10 1500 2]) \<noteq> 0"
    "sent_packets (dropna [pkt 0 300 2, pkt 10 1500 2]) = 0"
    by (simp_all add: received_bytes_def int64_def received_packets_def sent_packets_def dropna_def
        map_filter_simps pkt_def)
  from zero_sent_divides_by_zero [OF h, of lib_no_peaks 1 1000 2000 "''500ms''" 2] h
  show ?thesis by simp
qed

text \<open>
  Claim C8, as amended. Of two windows for which \<open>engineer_features\<close> returns a vector,
  with the same positive number of received bytes, the one with more sent bytes (neither
  negative) has a \<open>bytes_sr_ratio\<close> that is at least as large, and strictly larger when
  the sent bytes are below \<open>2 ^ 51\<close>. The ratio is the \<open>float64\<close> quotient of the two
  \<open>int64\<close> sums.
\<close>

theorem bytes_ratio_increasing:
  assumes "engineer_features lib df1 label1 rw1 rw2 rr fq = Inr (Some f1)"
    and "engineer_features lib df2 label2 rw1 rw2 rr fq = Inr (Some f2)"
    and "received_bytes (dropna df1) = received_bytes (dropna df2)"
    and "0 < received_bytes (dropna df1)"
    and "0 \<le> sent_bytes (dropna df1)"
    and "sent_bytes (dropna df1) < sent_bytes (dropna df2)"
  shows "bytes_sr_ratio f1 \<le> bytes_sr_ratio f2 \<and>
         (sent_bytes (dropna df2) < 2 ^ 51 \<longrightarrow> bytes_sr_ratio f1 < bytes_sr_ratio f2)"
proof -
  have r1: "bytes_sr_ratio f1 = float64_div (sent_bytes (dropna df1)) (received_bytes (dropna df1))"
    by (rule engineer_features_SomeD(3) [OF assms(1)])
  have r2: "bytes_sr_ratio f2 = float64_div (sent_bytes (dropna df2)) (received_bytes (dropna df1))"
    using engineer_features_SomeD(3) [OF assms(2)] by (simp only: assms(3))
  have "float64_div (sent_bytes (dropna df1)) (received_bytes (dropna df1))
      \<le> float64_div (sent_bytes (dropna df2)) (received_bytes (dropna df1))"
    using assms(5,6,4) by (intro float64_div_mono) simp_all
  moreover have "float64_div (sent_bytes (dropna df1)) (received_bytes (dropna df1))
      < float64_div (sent_bytes (dropna df2)) (received_bytes (dropna df1))"
    if "sent_bytes (dropna df2) < 2 ^ 51"
    by (rule float64_div_strict [OF assms(5,6) that assms(4)])
  ultimately show ?thesis by (simp add: r1 r2)
qed

theorem bytes_ratio_increasing_witness:
  "\<exists>f1 f2.
     engineer_features lib_no_peaks [pkt 0 100 1, pkt 10 300 2] 1 1000 2000 ''500ms'' 2 = Inr (Some f1) \<and>
     engineer_features lib_no_peaks [pkt 0 200 1, pkt 10 300 2] 1 1000 2000 ''500ms'' 2 = Inr (Some f2) \<and>
     received_bytes (dropna [pkt 0 100 1, pkt 10 300 2]) = received_bytes (dropna [pkt 0 200 1, pkt 10 300 2]) \<and>
     0 < received_bytes (dropna [pkt 0 100 1, pkt 10 300 2]) \<and>
     0 \<le> sent_bytes (dropna [pkt 0 100 1, pkt 10 300 2]) \<and>
     sent_bytes (dropna [pkt 0 100 1, pkt 10 300 2]) < sent_bytes (dropna [pkt 0 200 1, pkt 10 300 2]) \<and>
     sent_bytes (dropna [pkt 0 200 1, pkt 10 300 2]) < 2 ^ 51 \<and>
     bytes_sr_ratio f1 = float64_div 100 300 \<and> bytes_sr_ratio f2 = float64_div 200 300 \<and>
     bytes_sr_ratio f1 < bytes_sr_ratio f2"
proof -
  obtain f1 where f1: "engineer_features lib_no_peaks [pkt 0 100 1, pkt 10 300 2] 1 1000 2000 ''500ms'' 2 = Inr (Some f1)"
    and r1: "bytes_sr_ratio f1 = float64_div 100 300"
    by (simp add: feature_eval)
  obtain f2 where f2: "engineer_features lib_no_peaks [pkt 0 200 1, pkt 10 300 2] 1 1000 2000 ''500ms'' 2 = Inr (Some f2)"
    and r2: "bytes_sr_ratio f2 = float64_div 200 300"
    by (simp add: feature_eval)
  have h: "received_bytes (dropna [pkt 0 100 1, pkt 10 300 2]) = received_bytes (dropna [pkt 0 200 1, pkt 10 300 2])"
    "0 < received_bytes (dropna [pkt 0 100 1, pkt 10 300 2])"
    "0 \<le> sent_bytes (dropna [pkt 0 100 1, pkt 10 300 2])"
    "sent_bytes (dropna [pkt 0 100 1, pkt 10 300 2]) < sent_bytes (dropna [pkt 0 200 1, pkt 10 300 2])"
    and b: "sent_bytes (dropna [pkt 0 200 1, pkt 10 300 2]) < 2 ^ 51"
    by (simp_all add: received_bytes_def sent_bytes_def int64_def dropna_def map_filter_simps pkt_def)
  from bytes_ratio_increasing [OF f1 f2 h] b have "bytes_sr_ratio f1 < bytes_sr_ratio f2" by blast
  with f1 f2 h b r1 r2 show ?thesis by blast
qed

text \<open>
  The claim as stated fails for sent bytes \<open>2 ^ 53\<close> and \<open>2 ^ 53 + 1\<close> against one received
  byte: the two sums convert to the same \<open>float64\<close>, and the two ratios are equal.
\<close>

theorem bytes_ratio_float64_counterexample:
  "\<exists>f1 f2.
     engineer_features lib_no_peaks [pkt 0 9007199254740992 1, pkt 10 1 2] 1 1000 2000 ''500ms'' 2 = Inr (Some f1) \<and>
     engineer_features lib_no_peaks [pkt 0 9007199254740993 1, pkt 10 1 2] 1 1000 2000 ''500ms'' 2 = Inr (Some f2) \<and>
     received_bytes (dropna [pkt 0 9007199254740992 1, pkt 10 1 2]) = received_bytes (dropna [pkt 0 9007199254740993 1, pkt 10 1 2]) \<and>
     0 < received_bytes (dropna [pkt 0 9007199254740992 1, pkt 10 1 2]) \<and>
     sent_bytes (dropna [pkt 0 9007199254740992 1, pkt 10 1 2]) = 9007199254740992 \<and>
     sent_bytes (dropna [pkt 0 9007199254740993 1, pkt 10 1 2]) = 9007199254740993 \<and>
     bytes_sr_ratio f1 = bytes_sr_ratio f2"
proof -
  obtain f1 where f1: "engineer_features lib_no_peaks [pkt 0 9007199254740992 1, pkt 10 1 2] 1 1000 2000 ''500ms'' 2 = Inr (Some f1)"
    and r1: "bytes_sr_ratio f1 = float64_div 9007199254740992 1"
    by (simp add: feature_eval)
  obtain f2 where f2: "engineer_features lib_no_peaks [pkt 0 9007199254740993 1, pkt 10 1 2] 1 1000 2000 ''500ms'' 2 = Inr (Some f2)"
    and r2: "bytes_sr_ratio f2 = float64_div 9007199254740993 1"
    by (simp add: feature_eval)
  have h: "received_bytes (dropna [pkt 0 9007199254740992 1, pkt 10 1 2]) = received_bytes (dropna [pkt 0 9007199254740993 1, pkt 10 1 2])"
    "0 < received_bytes (dropna [pkt 0 9007199254740992 1, pkt 10 1 2])"
    "sent_bytes (dropna [pkt 0 9007199254740992 1, pkt 10 1 2]) = 9007199254740992"
    "sent_bytes (dropna [pkt 0 9007199254740993 1, pkt 10 1 2]) = 9007199254740993"
    by (simp_all add: received_bytes_def sent_bytes_def int64_def dropna_def map_filter_simps pkt_def)
  have "bytes_sr_ratio f1 = bytes_sr_ratio f2"
    by (simp only: r1 r2 float64_div_2p53_plus_1)
  with f1 f2 h show ?thesis by blast
qed

lemma ndarray_max_Inl: "ndarray_max proms = Inl e \<Longrightarrow> proms = []"
  by (cases proms) (simp_all add: ndarray_max_def)








text \<open>
  Claim C10. When \<open>engineer_features\<close> returns a vector (so the window passed the skip
  check and has a sent and a received packet), the frame after the second \<open>dropna\<close> is
  the window without its first line, and the two longest streaks and the spectral
  prominence are computed on that frame. The witness is a window whose only sent packet
  is its first line: the longest sent streak of the vector is 0, that of the whole
  window is 1.
\<close>

theorem features_computed_without_first_packet:
  assumes "engineer_features lib df label rw1 rw2 rr fq = Inr (Some f)"
  shows "map fst (with_ip_delay (dropna df)) = tl (dropna df) \<and>
         sent_longest_streak f = longest_dir_streak (map p_dir (tl (dropna df))) 1 \<and>
         received_longest_streak f = longest_dir_streak (map p_dir (tl (dropna df))) 2 \<and>
         max_prominence lib rr fq (map (\<lambda>p. (p_dt_time p, p_size p)) (tl (dropna df)))
           = Inr (max_frequency_prominence f)"
  using engineer_features_SomeD(4,5,6) [OF assms]
  by (simp add: with_ip_delay_fst with_ip_delay_dir with_ip_delay_sizes)

theorem features_computed_without_first_packet_witness:
  "\<exists>f. engineer_features lib_no_peaks [pkt 0 100 1, pkt 10 300 2, pkt 30 1500 2] 1 1000 2000 ''500ms'' 2
          = Inr (Some f) \<and>
       sent_longest_streak f = longest_dir_streak (map p_dir (tl (dropna [pkt 0 100 1, pkt 10 300 2, pkt 30 1500 2]))) 1 \<and>
       sent_longest_streak f = 0 \<and>
       longest_dir_streak (map p_dir (dropna [pkt 0 100 1, pkt 10 300 2, pkt 30 1500 2])) 1 = 1"
proof -
  let ?df = "[pkt 0 100 1, pkt 10 300 2, pkt 30 1500 2]"
  obtain f where f: "engineer_features lib_no_peaks ?df 1 1000 2000 ''500ms'' 2 = Inr (Some f)"
    by (simp add: feature_eval upt_rec)
  have t: "longest_dir_streak (map p_dir (tl (dropna ?df))) 1 = 0"
    and w: "longest_dir_streak (map p_dir (dropna ?df)) 1 = 1"
    by (simp_all add: dropna_def map_filter_simps pkt_def longest_dir_streak_def)
  from features_computed_without_first_packet [OF f] f t w show ?thesis by auto
qed

section \<open>The rolling mean\<close>

text \<open>
  Claim C2 fails on the code. For the observations at 1 s, 6 s and 7 s with delays 1000,
  5000 and 1000 (the frame of a window with packets at 0, 1, 6 and 7 seconds) and a
  width of 2 seconds, \<open>roll\<close> gives NaN, 3000, 3000: the mean of the last two
  observations, however far apart, and the same as for observations one second apart.
  The mean over the trailing two seconds would be 1000, 5000, 3000.
\<close>

theorem roll_counts_observations_not_time:
  "roll [(1000, 1000), (6000, 5000), (7000, 1000)] 2 = Inr [None, Some 3000, Some 3000] \<and>
   trailing_time_mean_spec [(1000, 1000), (6000, 5000), (7000, 1000)] 2
     = [Some 1000, Some 5000, Some 3000] \<and>
   roll [(1000, 1000), (2000, 5000), (3000, 1000)] 2 = Inr [None, Some 3000, Some 3000] \<and>
   with_ip_delay (dropna [pkt 0 100 1, pkt 1000 100 2, pkt 6000 100 1, pkt 7000 100 2])
     = [(\<lparr>p_dt_time = 1000, p_time = 1000, p_size = 100, p_dir = 2\<rparr>, 1000),
        (\<lparr>p_dt_time = 6000, p_time = 6000, p_size = 100, p_dir = 1\<rparr>, 5000),
        (\<lparr>p_dt_time = 7000, p_time = 7000, p_size = 100, p_dir = 2\<rparr>, 1000)]"
  by (simp add: roll_def rolling_mean_def trailing_time_mean_spec_def upt_rec Let_def
      with_ip_delay_Cons dropna_def map_filter_simps pkt_def)

section \<open>Two runs of the pipeline\<close>

lemma sequence_ok:
  "(\<And>m. m \<in> set ms \<Longrightarrow> \<exists>x. m = Inr x) \<Longrightarrow> sequence ms = Inr (map projr ms)"
proof (induction ms)
  case Nil
  show ?case by simp
next
  case (Cons m ms)
  from Cons.prems [of m] obtain x where "m = Inr x" by auto
  moreover have "sequence ms = Inr (map projr ms)"
    by (rule Cons.IH) (simp add: Cons.prems)
  ultimately show ?case by simp
qed

lemma sequence_fail:
  "Inl e \<in> set ms \<Longrightarrow> \<exists>e'. sequence ms = Inl e'"
proof (induction ms)
  case Nil
  then show ?case by simp
next
  case (Cons m ms)
  show ?case
  proof (cases m)
    case (Inl a)
    then show ?thesis by simp
  next
    case (Inr x)
    with Cons.prems have "Inl e \<in> set ms" by auto
    from Cons.IH [OF this] obtain e' where "sequence ms = Inl e'" by blast
    with Inr show ?thesis by simp
  qed
qed

lemma sequence_map_ok:
  assumes "\<not> (\<exists>x\<in>set xs. \<exists>e. F x = Inl e)"
  shows "sequence (map F xs) = Inr (map (\<lambda>x. projr (F x)) xs)"
proof -
  have "\<exists>v. m = Inr v" if "m \<in> set (map F xs)" for m
  proof -
    from that obtain x where x: "x \<in> set xs" "m = F x" by auto
    with assms show ?thesis by (cases "F x") auto
  qed
  from sequence_ok [of "map F xs", OF this] show ?thesis by (simp add: comp_def)
qed

lemma outcome_sequence_perm:
  assumes "mset xs = mset ys"
    and "outcome (k (map (\<lambda>x. projr (F x)) xs)) = outcome (k (map (\<lambda>x. projr (F x)) ys))"
  shows "outcome (ebind (sequence (map F xs)) k) = outcome (ebind (sequence (map F ys)) k)"
proof (cases "\<exists>x\<in>set xs. \<exists>e. F x = Inl e")
  case True
  then obtain x e where x: "x \<in> set xs" "F x = Inl e" by blast
  then have "Inl e \<in> set (map F xs)" by force
  from sequence_fail [OF this] obtain e1 where e1: "sequence (map F xs) = Inl e1" by blast
  from x assms(1) have "x \<in> set ys" using mset_eq_setD by blast
  with x(2) have "Inl e \<in> set (map F ys)" by force
  from sequence_fail [OF this] obtain e2 where e2: "sequence (map F ys) = Inl e2" by blast
  show ?thesis by (simp add: e1 e2 outcome_def)
next
  case False
  from False assms(1) have "\<not> (\<exists>x\<in>set ys. \<exists>e. F x = Inl e)"
    using mset_eq_setD by blast
  from sequence_map_ok [OF False] sequence_map_ok [OF this] assms(2)
  show ?thesis by simp
qed

lemma mset_map_filter:
  "mset (List.map_filter f xs) = image_mset (the \<circ> f) (filter_mset (\<lambda>x. f x \<noteq> None) (mset xs))"
  by (simp add: List.map_filter_def)

lemma outcome_stack:
  assumes "mset rows1 = mset rows2"
  shows "outcome (ebind (np_vstack rows1) (\<lambda>feats. Inr (filter no_nan feats))) =
         outcome (ebind (np_vstack rows2) (\<lambda>feats. Inr (filter no_nan feats)))"
proof (cases "rows1 = []")
  case True
  with assms have "rows2 = []" by simp
  with True show ?thesis by simp
next
  case False
  with assms have "rows2 \<noteq> []" by auto
  with False assms show ?thesis by (simp add: np_vstack_def outcome_def)
qed

lemma outcome_run_tasks_perm:
  assumes "mset m1 = mset m2"
  shows "outcome (run_tasks lib m1 rw1 rw2 rr fq) = outcome (run_tasks lib m2 rw1 rw2 rr fq)"
  unfolding run_tasks_def
proof (rule outcome_sequence_perm [OF assms])
  let ?G = "\<lambda>x. projr (case x of (key, df) \<Rightarrow> engineer_features lib df key rw1 rw2 rr fq)"
  have "mset (List.map_filter id (map ?G m1)) = mset (List.map_filter id (map ?G m2))"
    by (simp only: mset_map_filter mset_map assms)
  then show "outcome (ebind (np_vstack (List.map_filter id (map ?G m1))) (\<lambda>feats. Inr (filter no_nan feats)))
      = outcome (ebind (np_vstack (List.map_filter id (map ?G m2))) (\<lambda>feats. Inr (filter no_nan feats)))"
    by (rule outcome_stack)
qed

lemma mset_concat_map_perm:
  assumes "mset xs = mset ys"
  shows "mset (concat (map g xs)) = mset (concat (map g ys))"
proof -
  have "mset (concat (map g zs)) = sum_mset (image_mset (\<lambda>x. mset (g x)) (mset zs))" for zs
    by (simp add: mset_concat sum_mset_sum_list [symmetric] comp_def)
  then show ?thesis by (simp add: assms)
qed

text \<open>
  Claim C9. The model is a function of the files, their lines and the run parameters, and
  \<open>pool.map\<close> keeps the order of the tasks; what can differ between two runs on the same
  files is the order in which \<open>glob\<close> lists them. For two listings of the same files the
  runs fail both or succeed both, and then with the same rows up to their order.
\<close>

theorem create_features_independent_of_file_order:
  assumes "mset files1 = mset files2"
  shows "outcome (create_features lib files1 chunk_size rw1 rw2 rr fq) =
         outcome (create_features lib files2 chunk_size rw1 rw2 rr fq)"
  unfolding create_features_def
proof (rule outcome_sequence_perm [OF assms])
  show "outcome (run_tasks lib (concat (map (\<lambda>x. projr (split x chunk_size)) files1)) rw1 rw2 rr fq) =
        outcome (run_tasks lib (concat (map (\<lambda>x. projr (split x chunk_size)) files2)) rw1 rw2 rr fq)"
    by (rule outcome_run_tasks_perm) (rule mset_concat_map_perm [OF assms])
qed

theorem create_features_independent_of_file_order_witness:
  "mset [(''preprocessed-a.csv'', [pkt 0 100 1, pkt 10 300 2, pkt 30 1500 2]),
         (''preprocessed-novideo-b.csv'', [pkt 0 100 1, pkt 5 40 1])] =
   mset [(''preprocessed-novideo-b.csv'', [pkt 0 100 1, pkt 5 40 1]),
         (''preprocessed-a.csv'', [pkt 0 100 1, pkt 10 300 2, pkt 30 1500 2])] \<and>
   outcome (create_features lib_no_peaks
     [(''preprocessed-a.csv'', [pkt 0 100 1, pkt 10 300 2, pkt 30 1500 2]),
      (''preprocessed-novideo-b.csv'', [pkt 0 100 1, pkt 5 40 1])] 100 1000 2000 ''500ms'' 2) =
   outcome (create_features lib_no_peaks
     [(''preprocessed-novideo-b.csv'', [pkt 0 100 1, pkt 5 40 1]),
      (''preprocessed-a.csv'', [pkt 0 100 1, pkt 10 300 2, pkt 30 1500 2])] 100 1000 2000 ''500ms'' 2) \<and>
   outcome (create_features lib_no_peaks
     [(''preprocessed-a.csv'', [pkt 0 100 1, pkt 10 300 2, pkt 30 1500 2]),
      (''preprocessed-novideo-b.csv'', [pkt 0 100 1, pkt 5 40 1])] 100 1000 2000 ''500ms'' 2) =
   Some {#\<lparr>bytes_sr_ratio = float64_div 100 1800, count_sr_ratio = 1 / 2, smoothed_mean_delay_10s = Some 15,
      smoothed_mean_delay_60s = Some 15, received_mean_size = Some 900, sent_mean_size = Some 100,
      sent_large_prop = 0, sent_small_prop = 1, received_large_prop = 1 / 2, received_small_prop = 0,
      sent_longest_streak = 0, received_longest_streak = 2, max_frequency_prominence = 0, streaming = 1\<rparr>#}"
proof -
  have v: "outcome (create_features lib_no_peaks
     [(''preprocessed-a.csv'', [pkt 0 100 1, pkt 10 300 2, pkt 30 1500 2]),
      (''preprocessed-novideo-b.csv'', [pkt 0 100 1, pkt 5 40 1])] 100 1000 2000 ''500ms'' 2) =
   Some {#\<lparr>bytes_sr_ratio = float64_div 100 1800, count_sr_ratio = 1 / 2, smoothed_mean_delay_10s = Some 15,
      smoothed_mean_delay_60s = Some 15, received_mean_size = Some 900, sent_mean_size = Some 100,
      sent_large_prop = 0, sent_small_prop = 1, received_large_prop = 1 / 2, received_small_prop = 0,
      sent_longest_streak = 0, received_longest_streak = 2, max_frequency_prominence = 0, streaming = 1\<rparr>#}"
  proof -
    have a: "[pkt 0 100 1, pkt 10 300 2, pkt 30 1500 2] \<noteq> []" "(0::int) < 100"
      "time (hd [pkt 0 100 1, pkt 10 300 2, pkt 30 1500 2])
         \<le> time (last [pkt 0 100 1, pkt 10 300 2, pkt 30 1500 2])"
      "binning_exact [pkt 0 100 1, pkt 10 300 2, pkt 30 1500 2] 100"
      by (simp_all add: pkt_def binning_exact_def)
    have b: "[pkt 0 100 1, pkt 5 40 1] \<noteq> []" "(0::int) < 100"
      "time (hd [pkt 0 100 1, pkt 5 40 1]) \<le> time (last [pkt 0 100 1, pkt 5 40 1])"
      "binning_exact [pkt 0 100 1, pkt 5 40 1] 100"
      by (simp_all add: pkt_def binning_exact_def)
    have sa: "split (''preprocessed-a.csv'', [pkt 0 100 1, pkt 10 300 2, pkt 30 1500 2]) 100 =
        Inr [(1, [pkt 0 100 1, pkt 10 300 2, pkt 30 1500 2])]"
      unfolding split_pos [OF a] by (simp add: n_bins_def bin_edge_def pkt_def sublist_code)
    have sb: "split (''preprocessed-novideo-b.csv'', [pkt 0 100 1, pkt 5 40 1]) 100 =
        Inr [(0, [pkt 0 100 1, pkt 5 40 1])]"
      unfolding split_pos [OF b] by (simp add: n_bins_def bin_edge_def pkt_def sublist_code)
    have "create_features lib_no_peaks
        [(''preprocessed-a.csv'', [pkt 0 100 1, pkt 10 300 2, pkt 30 1500 2]),
         (''preprocessed-novideo-b.csv'', [pkt 0 100 1, pkt 5 40 1])] 100 1000 2000 ''500ms'' 2 =
      run_tasks lib_no_peaks
        [(1, [pkt 0 100 1, pkt 10 300 2, pkt 30 1500 2]), (0, [pkt 0 100 1, pkt 5 40 1])]
        1000 2000 ''500ms'' 2"
      by (simp add: create_features_def sa sb)
    then show ?thesis
      by (simp add: outcome_def run_tasks_def upt_rec feature_eval np_vstack_def no_nan_def)
  qed
  have h: "mset [(''preprocessed-a.csv'', [pkt 0 100 1, pkt 10 300 2, pkt 30 1500 2]),
         (''preprocessed-novideo-b.csv'', [pkt 0 100 1, pkt 5 40 1])] =
   mset [(''preprocessed-novideo-b.csv'', [pkt 0 100 1, pkt 5 40 1]),
         (''preprocessed-a.csv'', [pkt 0 100 1, pkt 10 300 2, pkt 30 1500 2])]"
    by (simp add: add_mset_commute)
  from create_features_independent_of_file_order [OF h, of lib_no_peaks 100 1000 2000 "''500ms''" 2] h v
  show ?thesis by blast
qed

end
